theory Spec2Isabelle
  imports Main "HOL-Library.Word"
begin

unbundle bit_operations_syntax

section \<open>UTF-8 validation and decoding (losgodis/utf8.hpp, utf8.cpp)\<close>

text \<open>
  A \<open>uint8_t\<close> is an \<open>8 word\<close>; \<open>codepoint_t\<close> is \<open>uint32_t\<close>, a \<open>32 word\<close>. In
  the expressions that mix a byte with an unsigned literal (\<open>b1 & 0x1Fu\<close>) the byte is
  promoted to \<open>unsigned int\<close>: that is \<open>ucast\<close> to a \<open>32 word\<close>. Sizes and indices
  (\<open>size_t\<close>) are natural numbers: an index never exceeds the length of the range, and the
  largest sum the code forms is \<open>i + 3\<close> with \<open>i\<close> below that length.
\<close>

type_synonym byte = "8 word"
type_synonym codepoint_t = "32 word"

datatype validation_error =
    success
  | invalid_byte
  | invalid_codepoint
  | overlong_enocoding
  | unexpected_continuation_byte
  | unexpected_non_continuation_byte
  | unexpected_end

text \<open>
  A \<open>byte_range\<close> is the list of the \<open>byte_count_\<close> bytes that start at \<open>start_\<close>:
  \<open>size()\<close> is its length and \<open>operator[]\<close> is \<open>!\<close>, which \<open>validate\<close> only uses below the
  length. A \<open>utf8_range\<close> keeps the same start (the same bytes) and its own byte count.
  The members \<open>start_\<close>, \<open>byte_count_\<close> and \<open>str_\<close> are written without the final
  underscore, which a constant's name cannot have.
\<close>

type_synonym byte_range = "byte list"

record utf8_range =
  start :: "byte list"
  byte_count :: nat

record validation_result =
  error :: validation_error
  range :: utf8_range
  codepoint_count :: nat

definition to_utf8 :: "byte_range \<Rightarrow> nat \<Rightarrow> utf8_range" where
  "to_utf8 r sz = \<lparr>start = r, byte_count = sz\<rparr>"

text \<open>The loop of \<open>validate\<close>, with the loop variables \<open>i\<close> and \<open>codepoint_count\<close>.\<close>

function validate_loop :: "byte_range \<Rightarrow> nat \<Rightarrow> nat \<Rightarrow> validation_result" where
  "validate_loop r i cnt =
    (if i < length r then
      (let b1 = r ! i in
       if b1 < 0x80 then validate_loop r (i + 1) (cnt + 1)
       else if b1 < 0xC0 then
         \<lparr>error = unexpected_continuation_byte, range = to_utf8 r i, codepoint_count = cnt\<rparr>
       else if b1 < 0xE0 then
         (if i + 1 \<ge> length r then
            \<lparr>error = unexpected_end, range = to_utf8 r i, codepoint_count = cnt\<rparr>
          else
            (let b2 = r ! (i + 1) in
             if (ucast b2 XOR 0x80) AND (0xC0 :: 32 word) \<noteq> 0 then
               \<lparr>error = unexpected_non_continuation_byte, range = to_utf8 r i,
                codepoint_count = cnt\<rparr>
             else
               (let codepoint = push_bit 6 (ucast b1 AND 0x1F) OR (ucast b2 AND 0x3F) :: 32 word in
                if codepoint < 0x7F then
                  \<lparr>error = overlong_enocoding, range = to_utf8 r i, codepoint_count = cnt\<rparr>
                else validate_loop r (i + 2) (cnt + 1))))
       else if b1 < 0xF0 then
         (if i + 2 \<ge> length r then
            \<lparr>error = unexpected_end, range = to_utf8 r i, codepoint_count = cnt\<rparr>
          else
            (let b2 = r ! (i + 1); b3 = r ! (i + 2) in
             if ((ucast b2 XOR 0x80) OR (ucast b3 XOR 0x80)) AND (0xC0 :: 32 word) \<noteq> 0 then
               \<lparr>error = unexpected_non_continuation_byte, range = to_utf8 r i,
                codepoint_count = cnt\<rparr>
             else
               (let codepoint = push_bit 12 (ucast b1 AND 0xF) OR push_bit 6 (ucast b2 AND 0x3F)
                                  OR (ucast b3 AND 0x3F) :: 32 word in
                if codepoint \<le> 0x7FF then
                  \<lparr>error = overlong_enocoding, range = to_utf8 r i, codepoint_count = cnt\<rparr>
                else validate_loop r (i + 3) (cnt + 1))))
       else if b1 < 0xF8 then
         (if i + 3 \<ge> length r then
            \<lparr>error = unexpected_end, range = to_utf8 r i, codepoint_count = cnt\<rparr>
          else
            (let b2 = r ! (i + 1); b3 = r ! (i + 2); b4 = r ! (i + 3) in
             if ((ucast b2 XOR 0x80) OR (ucast b3 XOR 0x80) OR (ucast b4 XOR 0x80))
                  AND (0xC0 :: 32 word) \<noteq> 0 then
               \<lparr>error = unexpected_non_continuation_byte, range = to_utf8 r i,
                codepoint_count = cnt\<rparr>
             else
               (let codepoint = push_bit 18 (ucast b1 AND 0x7) OR push_bit 12 (ucast b2 AND 0x3F)
                                  OR push_bit 6 (ucast b3 AND 0x3F) OR (ucast b4 AND 0x3F)
                                  :: 32 word in
                if codepoint > 0x10FFFF then
                  \<lparr>error = invalid_codepoint, range = to_utf8 r i, codepoint_count = cnt\<rparr>
                else if codepoint \<le> 0xFFFF then
                  \<lparr>error = overlong_enocoding, range = to_utf8 r i, codepoint_count = cnt\<rparr>
                else validate_loop r (i + 4) (cnt + 1))))
       else
         \<lparr>error = invalid_byte, range = to_utf8 r i, codepoint_count = cnt\<rparr>)
     else \<lparr>error = success, range = to_utf8 r i, codepoint_count = cnt\<rparr>)"
  by pat_completeness auto
termination
  by (relation "measure (\<lambda>(r, i, cnt). length r - i)") auto

declare validate_loop.simps [simp del]

definition validate :: "byte_range \<Rightarrow> validation_result" where
  "validate r = validate_loop r 0 0"

text \<open>\<open>validate_quick\<close>: the same loop without the checks on the assembled codepoint.\<close>

function validate_quick_loop :: "byte_range \<Rightarrow> nat \<Rightarrow> nat \<Rightarrow> validation_result" where
  "validate_quick_loop r i cnt =
    (if i < length r then
      (let b1 = r ! i in
       if b1 < 0x80 then validate_quick_loop r (i + 1) (cnt + 1)
       else if b1 < 0xC0 then
         \<lparr>error = unexpected_continuation_byte, range = to_utf8 r i, codepoint_count = cnt\<rparr>
       else if b1 < 0xE0 then
         (if i + 1 \<ge> length r then
            \<lparr>error = unexpected_end, range = to_utf8 r i, codepoint_count = cnt\<rparr>
          else
            (let b2 = r ! (i + 1) in
             if (ucast b2 XOR 0x80) AND (0xC0 :: 32 word) \<noteq> 0 then
               \<lparr>error = unexpected_non_continuation_byte, range = to_utf8 r i,
                codepoint_count = cnt\<rparr>
             else validate_quick_loop r (i + 2) (cnt + 1)))
       else if b1 < 0xF0 then
         (if i + 2 \<ge> length r then
            \<lparr>error = unexpected_end, range = to_utf8 r i, codepoint_count = cnt\<rparr>
          else
            (let b2 = r ! (i + 1); b3 = r ! (i + 2) in
             if ((ucast b2 XOR 0x80) OR (ucast b3 XOR 0x80)) AND (0xC0 :: 32 word) \<noteq> 0 then
               \<lparr>error = unexpected_non_continuation_byte, range = to_utf8 r i,
                codepoint_count = cnt\<rparr>
             else validate_quick_loop r (i + 3) (cnt + 1)))
       else if b1 < 0xF8 then
         (if i + 3 \<ge> length r then
            \<lparr>error = unexpected_end, range = to_utf8 r i, codepoint_count = cnt\<rparr>
          else
            (let b2 = r ! (i + 1); b3 = r ! (i + 2); b4 = r ! (i + 3) in
             if ((ucast b2 XOR 0x80) OR (ucast b3 XOR 0x80) OR (ucast b4 XOR 0x80))
                  AND (0xC0 :: 32 word) \<noteq> 0 then
               \<lparr>error = unexpected_non_continuation_byte, range = to_utf8 r i,
                codepoint_count = cnt\<rparr>
             else validate_quick_loop r (i + 4) (cnt + 1)))
       else
         \<lparr>error = invalid_byte, range = to_utf8 r i, codepoint_count = cnt\<rparr>)
     else \<lparr>error = success, range = to_utf8 r i, codepoint_count = cnt\<rparr>)"
  by pat_completeness auto
termination
  by (relation "measure (\<lambda>(r, i, cnt). length r - i)") auto

declare validate_quick_loop.simps [simp del]

definition validate_quick :: "byte_range \<Rightarrow> validation_result" where
  "validate_quick r = validate_quick_loop r 0 0"

text \<open>
  The iterator holds a \<open>const char*\<close>: here the bytes it points into and the offset of
  \<open>str_\<close> in them. The source reads \<open>*(str_ + offset)\<close> unchecked; a read outside the
  bytes is undefined behaviour and is the fault \<open>out_of_bounds\<close> here. \<open>assert(false)\<close> is
  the fault \<open>assertion_failed\<close>.
\<close>

datatype fault = out_of_bounds | assertion_failed

record iterator =
  mem :: "byte list"
  str :: nat

definition byte :: "iterator \<Rightarrow> nat \<Rightarrow> fault + byte" where
  "byte it offset =
    (if str it + offset < length (mem it) then Inr (mem it ! (str it + offset))
     else Inl out_of_bounds)"

text \<open>\<open>iterator::operator*\<close>\<close>

definition deref :: "iterator \<Rightarrow> fault + codepoint_t" where
  "deref it =
    (case byte it 0 of Inl f \<Rightarrow> Inl f | Inr byte0 \<Rightarrow>
      if byte0 < 0x80 then Inr (ucast byte0)
      else if byte0 < 0xE0 then
        (case byte it 1 of Inl f \<Rightarrow> Inl f | Inr byte1 \<Rightarrow>
          Inr (push_bit 6 (ucast byte0 AND 0x1F) OR (ucast byte1 AND 0x3F)))
      else if byte0 < 0xF0 then
        (case byte it 1 of Inl f \<Rightarrow> Inl f | Inr byte1 \<Rightarrow>
         case byte it 2 of Inl f \<Rightarrow> Inl f | Inr byte2 \<Rightarrow>
          Inr (push_bit 12 (ucast byte0 AND 0xF) OR push_bit 6 (ucast byte1 AND 0x3F)
                OR (ucast byte2 AND 0x3F)))
      else
        (case byte it 1 of Inl f \<Rightarrow> Inl f | Inr byte1 \<Rightarrow>
         case byte it 2 of Inl f \<Rightarrow> Inl f | Inr byte2 \<Rightarrow>
         case byte it 3 of Inl f \<Rightarrow> Inl f | Inr byte3 \<Rightarrow>
          Inr (push_bit 18 (ucast byte0 AND 0x7) OR push_bit 12 (ucast byte1 AND 0x3F)
                OR push_bit 6 (ucast byte2 AND 0x3F) OR (ucast byte3 AND 0x3F))))"

text \<open>\<open>iterator::operator++\<close>\<close>

definition incr :: "iterator \<Rightarrow> fault + iterator" where
  "incr it =
    (case byte it 0 of Inl f \<Rightarrow> Inl f | Inr byte0 \<Rightarrow>
      if byte0 \<le> 0x7F then Inr (it\<lparr>str := str it + 1\<rparr>)
      else if byte0 \<le> 0xBF then Inl assertion_failed
      else if byte0 \<le> 0xDF then Inr (it\<lparr>str := str it + 2\<rparr>)
      else if byte0 \<le> 0xEF then Inr (it\<lparr>str := str it + 3\<rparr>)
      else if byte0 \<le> 0xF7 then Inr (it\<lparr>str := str it + 4\<rparr>)
      else Inl assertion_failed)"

text \<open>\<open>utf8_range::begin\<close>, \<open>utf8_range::end\<close> and \<open>iterator::operator==\<close>\<close>

definition begin_it :: "utf8_range \<Rightarrow> iterator" where
  "begin_it u = \<lparr>mem = start u, str = 0\<rparr>"

definition end_it :: "utf8_range \<Rightarrow> iterator" where
  "end_it u = \<lparr>mem = start u, str = 0 + byte_count u\<rparr>"

definition it_eq :: "iterator \<Rightarrow> iterator \<Rightarrow> bool" where
  "it_eq a b = (str a = str b)"

text \<open>
  The loop a caller writes over a range,
  \<^verbatim>\<open>for (auto it = u.begin(); it != u.end(); ++it) out.push_back(*it);\<close>
  with the codepoints read so far in \<open>out\<close>.
\<close>

function iterate :: "iterator \<Rightarrow> iterator \<Rightarrow> codepoint_t list \<Rightarrow> fault + codepoint_t list" where
  "iterate it e out =
    (if it_eq it e then Inr out
     else case deref it of Inl f \<Rightarrow> Inl f | Inr cp \<Rightarrow>
          (case incr it of Inl f \<Rightarrow> Inl f | Inr it' \<Rightarrow> iterate it' e (out @ [cp])))"
  by pat_completeness auto
termination
  by (relation "measure (\<lambda>(it, e, out). length (mem it) - str it)")
     (auto simp: incr_def byte_def split: if_splits)

declare iterate.simps [simp del]

definition codepoints :: "utf8_range \<Rightarrow> fault + codepoint_t list" where
  "codepoints u = iterate (begin_it u) (end_it u) []"

subsection \<open>Well-formed UTF-8, as the specification words it\<close>

text \<open>
  A Unicode scalar value is a code point up to \<open>0x10FFFF\<close> outside the surrogate range
  \<open>0xD800..0xDFFF\<close>. \<open>utf8_encode\<close> is its minimal-length encoding: the length class is
  chosen by the value, the lead byte carries the high bits and every continuation byte
  \<open>10xxxxxx\<close> carries six more.
\<close>

definition unicode_scalar_value :: "nat \<Rightarrow> bool" where
  "unicode_scalar_value cp = (cp \<le> 0x10FFFF \<and> \<not> (0xD800 \<le> cp \<and> cp \<le> 0xDFFF))"

definition utf8_encode :: "nat \<Rightarrow> byte list" where
  "utf8_encode cp =
    (if cp < 0x80 then [of_nat cp]
     else if cp < 0x800 then [of_nat (0xC0 + cp div 64), of_nat (0x80 + cp mod 64)]
     else if cp < 0x10000 then
       [of_nat (0xE0 + cp div 4096), of_nat (0x80 + cp div 64 mod 64), of_nat (0x80 + cp mod 64)]
     else
       [of_nat (0xF0 + cp div 262144), of_nat (0x80 + cp div 4096 mod 64),
        of_nat (0x80 + cp div 64 mod 64), of_nat (0x80 + cp mod 64)])"

definition utf8_encode_all :: "nat list \<Rightarrow> byte list" where
  "utf8_encode_all cps = concat (map utf8_encode cps)"

subsection \<open>The loop bodies as functions of the bytes at the current offset\<close>

text \<open>
  One pass through the body of the loop of \<open>validate\<close> either fails with an error kind or
  advances by the length of a sequence. \<open>vwin\<close> is that body as a function of the number
  of bytes left and the (up to) four bytes at the current offset, \<open>vstep\<close> applies it at
  an offset of a range; \<open>qwin\<close> and \<open>qstep\<close> do the same for \<open>validate_quick\<close>. \<open>dwin\<close> is
  the value \<open>iterator::operator*\<close> assembles from four bytes. The lemmas
  \<open>validate_loop_step\<close>, \<open>validate_quick_loop_step\<close> and \<open>deref_dwin\<close> tie them to the
  functions above.
\<close>

definition vwin :: "nat \<Rightarrow> byte \<Rightarrow> byte \<Rightarrow> byte \<Rightarrow> byte \<Rightarrow> validation_error + nat" where
  "vwin avail b1 b2 b3 b4 =
     (if b1 < 0x80 then Inr 1
      else if b1 < 0xC0 then Inl unexpected_continuation_byte
      else if b1 < 0xE0 then
        (if avail \<le> 1 then Inl unexpected_end
         else if (ucast b2 XOR 0x80) AND (0xC0 :: 32 word) \<noteq> 0 then
           Inl unexpected_non_continuation_byte
         else if (push_bit 6 (ucast b1 AND 0x1F) OR (ucast b2 AND 0x3F) :: 32 word) < 0x7F then
           Inl overlong_enocoding
         else Inr 2)
      else if b1 < 0xF0 then
        (if avail \<le> 2 then Inl unexpected_end
         else if ((ucast b2 XOR 0x80) OR (ucast b3 XOR 0x80)) AND (0xC0 :: 32 word) \<noteq> 0 then
           Inl unexpected_non_continuation_byte
         else if (push_bit 12 (ucast b1 AND 0xF) OR push_bit 6 (ucast b2 AND 0x3F)
                    OR (ucast b3 AND 0x3F) :: 32 word) \<le> 0x7FF then
           Inl overlong_enocoding
         else Inr 3)
      else if b1 < 0xF8 then
        (if avail \<le> 3 then Inl unexpected_end
         else if ((ucast b2 XOR 0x80) OR (ucast b3 XOR 0x80) OR (ucast b4 XOR 0x80))
                   AND (0xC0 :: 32 word) \<noteq> 0 then
           Inl unexpected_non_continuation_byte
         else if (push_bit 18 (ucast b1 AND 0x7) OR push_bit 12 (ucast b2 AND 0x3F)
                    OR push_bit 6 (ucast b3 AND 0x3F) OR (ucast b4 AND 0x3F) :: 32 word)
                   > 0x10FFFF then
           Inl invalid_codepoint
         else if (push_bit 18 (ucast b1 AND 0x7) OR push_bit 12 (ucast b2 AND 0x3F)
                    OR push_bit 6 (ucast b3 AND 0x3F) OR (ucast b4 AND 0x3F) :: 32 word)
                   \<le> 0xFFFF then
           Inl overlong_enocoding
         else Inr 4)
      else Inl invalid_byte)"

definition vstep :: "byte_range \<Rightarrow> nat \<Rightarrow> validation_error + nat" where
  "vstep r i = vwin (length r - i) (r ! i) (r ! (i + 1)) (r ! (i + 2)) (r ! (i + 3))"

definition qwin :: "nat \<Rightarrow> byte \<Rightarrow> byte \<Rightarrow> byte \<Rightarrow> byte \<Rightarrow> validation_error + nat" where
  "qwin avail b1 b2 b3 b4 =
     (if b1 < 0x80 then Inr 1
      else if b1 < 0xC0 then Inl unexpected_continuation_byte
      else if b1 < 0xE0 then
        (if avail \<le> 1 then Inl unexpected_end
         else if (ucast b2 XOR 0x80) AND (0xC0 :: 32 word) \<noteq> 0 then
           Inl unexpected_non_continuation_byte
         else Inr 2)
      else if b1 < 0xF0 then
        (if avail \<le> 2 then Inl unexpected_end
         else if ((ucast b2 XOR 0x80) OR (ucast b3 XOR 0x80)) AND (0xC0 :: 32 word) \<noteq> 0 then
           Inl unexpected_non_continuation_byte
         else Inr 3)
      else if b1 < 0xF8 then
        (if avail \<le> 3 then Inl unexpected_end
         else if ((ucast b2 XOR 0x80) OR (ucast b3 XOR 0x80) OR (ucast b4 XOR 0x80))
                   AND (0xC0 :: 32 word) \<noteq> 0 then
           Inl unexpected_non_continuation_byte
         else Inr 4)
      else Inl invalid_byte)"

definition qstep :: "byte_range \<Rightarrow> nat \<Rightarrow> validation_error + nat" where
  "qstep r i = qwin (length r - i) (r ! i) (r ! (i + 1)) (r ! (i + 2)) (r ! (i + 3))"

definition dwin :: "byte \<Rightarrow> byte \<Rightarrow> byte \<Rightarrow> byte \<Rightarrow> codepoint_t" where
  "dwin byte0 byte1 byte2 byte3 =
     (if byte0 < 0x80 then ucast byte0
      else if byte0 < 0xE0 then push_bit 6 (ucast byte0 AND 0x1F) OR (ucast byte1 AND 0x3F)
      else if byte0 < 0xF0 then
        push_bit 12 (ucast byte0 AND 0xF) OR push_bit 6 (ucast byte1 AND 0x3F)
          OR (ucast byte2 AND 0x3F)
      else push_bit 18 (ucast byte0 AND 0x7) OR push_bit 12 (ucast byte1 AND 0x3F)
             OR push_bit 6 (ucast byte2 AND 0x3F) OR (ucast byte3 AND 0x3F))"

definition is_cont :: "byte \<Rightarrow> bool" where
  "is_cont b = (128 \<le> unat b \<and> unat b < 192)"

subsection \<open>The per-position algorithm, as the specification words it\<close>

text \<open>
  Section 4.4 of the specification gives one per-position algorithm for both validators;
  the definitions here follow its ten steps, not the code, to be compared with
  \<open>validate\<close> and \<open>validate_quick\<close>. \<open>spec_lead_byte\<close> classifies the lead byte (step 1) into
  the length of its sequence or the failure of a stray continuation byte (step 3) or of
  an invalid lead (step 4). \<open>spec_sequence_at full bs\<close> is the algorithm at one position,
  \<open>bs\<close> being the bytes from the current offset on: an ASCII byte is a sequence of length
  1 (step 2); a multi-byte lead needs all the bytes of its sequence (step 5), each
  continuation byte of the form \<open>10xxxxxx\<close> (step 6); the value is assembled from the bit
  fragments, the low \<open>7 - n\<close> bits of the lead of an \<open>n\<close>-byte sequence and six bits of each
  continuation byte (step 7); the full validator alone rejects an overlong value
  (step 8) and a value above \<open>0x10FFFF\<close> (step 9). \<open>spec_per_position\<close> runs it from an
  offset on: a success advances past the sequence and counts one codepoint (steps 2 and
  10), a failure returns at once with the error kind, the prefix that ends at the
  failing offset and the count so far, and the end of the input yields \<open>success\<close>.
\<close>

definition spec_lead_byte :: "byte \<Rightarrow> validation_error + nat" where
  "spec_lead_byte b =
    (if unat b < 0x80 then Inr 1
     else if unat b \<le> 0xBF then Inl unexpected_continuation_byte
     else if unat b \<le> 0xDF then Inr 2
     else if unat b \<le> 0xEF then Inr 3
     else if unat b \<le> 0xF7 then Inr 4
     else Inl invalid_byte)"

definition spec_continuation_bytes :: "nat \<Rightarrow> byte list \<Rightarrow> byte list" where
  "spec_continuation_bytes n bs = map (\<lambda>j. bs ! j) [1..<n]"

definition spec_assembled :: "nat \<Rightarrow> byte list \<Rightarrow> nat" where
  "spec_assembled n bs =
     foldl (\<lambda>v b. v * 64 + unat b mod 64) (unat (bs ! 0) mod 2 ^ (7 - n))
       (spec_continuation_bytes n bs)"

definition spec_overlong :: "nat \<Rightarrow> nat \<Rightarrow> bool" where
  "spec_overlong n v = (n = 2 \<and> v \<le> 0x7F \<or> n = 3 \<and> v \<le> 0x7FF \<or> n = 4 \<and> v \<le> 0xFFFF)"

definition spec_sequence_at :: "bool \<Rightarrow> byte list \<Rightarrow> validation_error + nat" where
  "spec_sequence_at full bs =
    (case spec_lead_byte (bs ! 0) of
       Inl e \<Rightarrow> Inl e
     | Inr n \<Rightarrow>
         if n = 1 then Inr 1
         else if length bs < n then Inl unexpected_end
         else if \<not> list_all is_cont (spec_continuation_bytes n bs) then
           Inl unexpected_non_continuation_byte
         else if full \<and> spec_overlong n (spec_assembled n bs) then Inl overlong_enocoding
         else if full \<and> spec_assembled n bs > 0x10FFFF then Inl invalid_codepoint
         else Inr n)"

function spec_per_position :: "bool \<Rightarrow> byte_range \<Rightarrow> nat \<Rightarrow> nat \<Rightarrow> validation_result" where
  "spec_per_position full r i cnt =
    (if i < length r then
       (case spec_sequence_at full (drop i r) of
          Inl e \<Rightarrow> \<lparr>error = e, range = to_utf8 r i, codepoint_count = cnt\<rparr>
        | Inr n \<Rightarrow> spec_per_position full r (i + n) (cnt + 1))
     else \<lparr>error = success, range = to_utf8 r i, codepoint_count = cnt\<rparr>)"
  by pat_completeness auto
termination
  by (relation "measure (\<lambda>(full, r, i, cnt). length r - i)")
     (auto simp: spec_sequence_at_def spec_lead_byte_def split: sum.splits if_splits)

declare spec_per_position.simps [simp del]

section \<open>The string pool (losgodis/string_pool.hpp, string_pool.cpp)\<close>

text \<open>
  A \<open>const char*\<close> of the pool points either into the buffer of a page or into memory the
  caller owns (the storage of a literal, the buffer of a \<open>std::string\<close>). A page is named
  by its number, the count of pages allocated before it: \<open>make_unique\<close> hands out a new
  object while all earlier pages are alive, so no two pages share an address. The caller's
  memory is a function from addresses to bytes that the pool only reads.
\<close>

definition page_size :: nat where
  "page_size = 4096"

type_synonym size_t = "64 word"

datatype char_ptr = page_ptr nat nat | caller_ptr nat

fun ptr_add :: "char_ptr \<Rightarrow> nat \<Rightarrow> char_ptr" where
  "ptr_add (page_ptr k off) i = page_ptr k (off + i)"
| "ptr_add (caller_ptr a) i = caller_ptr (a + i)"

text \<open>
  The members \<open>view_\<close>, \<open>hash_\<close>, \<open>key_\<close>, \<open>data_\<close>, \<open>size_\<close>, \<open>buffer_\<close>, \<open>remaining_\<close>,
  \<open>map_\<close> and \<open>page_\<close> lose the final underscore; \<open>size\<close> and \<open>map\<close> are constants of HOL
  and get a suffix. \<open>previousPage_\<close> is the order of the list \<open>pages\<close>, from the oldest
  page to \<open>page_\<close> itself, its last element; \<open>page_ == nullptr\<close> is the empty list.
\<close>

record string_view =
  sv_data :: char_ptr
  sv_size :: nat

record string_key =
  view :: string_view
  hash :: size_t

record string_literal =
  key :: string_key

record fixed_string =
  data :: char_ptr
  size_fs :: nat

record fixed_page =
  buffer :: "nat \<Rightarrow> byte"
  remaining :: nat

record string_pool =
  map_set :: "string_key list"
  pages :: "fixed_page list"

text \<open>
  What the pool does not own: the caller's memory, and the bytes a buffer of a newly
  allocated page holds before anything is written to it (\<open>buffer_\<close> has no initialiser).
\<close>

record environment =
  caller_mem :: "nat \<Rightarrow> byte"
  fresh_mem :: "nat \<Rightarrow> nat \<Rightarrow> byte"

text \<open>
  Reading through a pointer. A view can be read when it lies in the caller's memory or
  inside the buffer of an existing page; reading any other view is undefined behaviour
  and gives \<open>None\<close>.
\<close>

fun peek :: "environment \<Rightarrow> fixed_page list \<Rightarrow> char_ptr \<Rightarrow> byte" where
  "peek env pgs (caller_ptr a) = caller_mem env a"
| "peek env pgs (page_ptr k off) = buffer (pgs ! k) off"

fun readable :: "fixed_page list \<Rightarrow> string_view \<Rightarrow> bool" where
  "readable pgs \<lparr>sv_data = caller_ptr a, sv_size = n\<rparr> = True"
| "readable pgs \<lparr>sv_data = page_ptr k off, sv_size = n\<rparr> = (k < length pgs \<and> off + n \<le> page_size)"

definition view_bytes :: "environment \<Rightarrow> fixed_page list \<Rightarrow> string_view \<Rightarrow> byte list option" where
  "view_bytes env pgs v =
    (if readable pgs v
     then Some (map (\<lambda>i. peek env pgs (ptr_add (sv_data v) i)) [0..<sv_size v])
     else None)"

text \<open>\<open>detail::hash\<close>, FNV-1a with the constants of a 64-bit \<open>size_t\<close>.\<close>

definition detail_hash :: "byte list \<Rightarrow> size_t" where
  "detail_hash bs = fold (\<lambda>b h. (h XOR ucast b) * 1099511628211) bs 14695981039346656037"

text \<open>
  The constructor \<open>string_key(std::string_view)\<close> and \<open>operator"" _key\<close>, for a view of
  \<open>n\<close> bytes at address \<open>a\<close> of the caller's memory.
\<close>

definition caller_bytes :: "environment \<Rightarrow> nat \<Rightarrow> nat \<Rightarrow> byte list" where
  "caller_bytes env a n = map (caller_mem env) [a..<a + n]"

definition string_key_of :: "environment \<Rightarrow> nat \<Rightarrow> nat \<Rightarrow> string_key" where
  "string_key_of env a n =
    \<lparr>view = \<lparr>sv_data = caller_ptr a, sv_size = n\<rparr>, hash = detail_hash (caller_bytes env a n)\<rparr>"

definition literal_key :: "environment \<Rightarrow> nat \<Rightarrow> nat \<Rightarrow> string_literal" where
  "literal_key env a n =
    \<lparr>key = \<lparr>view = \<lparr>sv_data = caller_ptr a, sv_size = n\<rparr>,
            hash = detail_hash (caller_bytes env a n)\<rparr>\<rparr>"

text \<open>
  \<open>operator==(string_key, string_key)\<close> compares the bytes of the two views.
  \<open>map_.find(key)\<close> is the element of the set with the hash of \<open>key\<close> that is equal to it.
\<close>

definition key_eq :: "environment \<Rightarrow> fixed_page list \<Rightarrow> string_key \<Rightarrow> string_key \<Rightarrow> bool" where
  "key_eq env pgs a b =
    (case view_bytes env pgs (view a) of
       None \<Rightarrow> False
     | Some x \<Rightarrow> view_bytes env pgs (view b) = Some x)"

definition find_key :: "environment \<Rightarrow> string_pool \<Rightarrow> string_key \<Rightarrow> string_key option" where
  "find_key env p k = find (\<lambda>e. hash e = hash k \<and> key_eq env (pages p) e k) (map_set p)"

text \<open>\<open>fixed_page\<close>: the constructor, \<open>can_hold\<close> and \<open>push_back\<close>.\<close>

definition new_page :: "environment \<Rightarrow> nat \<Rightarrow> fixed_page" where
  "new_page env k = \<lparr>buffer = fresh_mem env k, remaining = page_size\<rparr>"

definition can_hold :: "fixed_page \<Rightarrow> nat \<Rightarrow> bool" where
  "can_hold pg sz = (sz + 1 < remaining pg)"

definition write_bytes :: "(nat \<Rightarrow> byte) \<Rightarrow> nat \<Rightarrow> byte list \<Rightarrow> nat \<Rightarrow> byte" where
  "write_bytes buf at bs =
    (\<lambda>i. if at \<le> i \<and> i < at + length bs then bs ! (i - at) else buf i)"

text \<open>
  \<open>push_back\<close> on the page with number \<open>this\<close>. The source's \<open>start\<close> (here \<open>at\<close>) is
  \<open>&buffer_.back() - remaining_ + 1\<close>, the offset \<open>page_size - remaining_\<close>. The copy writes the
  offsets \<open>at .. at + size - 1\<close> and the terminator the offset \<open>at + size\<close>; when
  they do not all lie in the buffer (and \<open>remaining_ -= size + 1\<close> would wrap around) the
  behaviour is undefined, the result \<open>None\<close>.
\<close>

definition push_back ::
    "nat \<Rightarrow> byte list \<Rightarrow> fixed_page \<Rightarrow> (char_ptr \<times> fixed_page) option" where
  "push_back this bs pg =
    (let sz = length bs; at = page_size - remaining pg in
     if remaining pg \<le> page_size \<and> sz + 1 \<le> remaining pg then
       Some (page_ptr this at,
             \<lparr>buffer = (write_bytes (buffer pg) at bs)(at + sz := 0),
              remaining = remaining pg - (sz + 1)\<rparr>)
     else None)"

text \<open>
  \<open>string_pool\<close>: the two constructors and the overloads of \<open>get_string\<close>.
  \<open>ensure_page\<close> is the statement
  \<^verbatim>\<open>if (page_ == nullptr || !page_->can_hold(size)) page_ = make_unique<fixed_page>(move(page_));\<close>
\<close>

definition empty_pool :: string_pool where
  "empty_pool = \<lparr>map_set = [], pages = []\<rparr>"

definition insert_key :: "environment \<Rightarrow> string_pool \<Rightarrow> string_key \<Rightarrow> string_pool" where
  "insert_key env p k = (if find_key env p k = None then p\<lparr>map_set := k # map_set p\<rparr> else p)"

definition string_pool_of :: "environment \<Rightarrow> string_literal list \<Rightarrow> string_pool" where
  "string_pool_of env lits = foldl (insert_key env) empty_pool (map key lits)"

definition get_string_literal ::
    "environment \<Rightarrow> string_pool \<Rightarrow> string_literal \<Rightarrow> (fixed_string \<times> string_pool) option" where
  "get_string_literal env p lit =
    (let k = key lit; sz = sv_size (view k) in
     case find_key env p k of
       Some it \<Rightarrow> Some (\<lparr>data = sv_data (view it), size_fs = sz\<rparr>, p)
     | None \<Rightarrow>
         Some (\<lparr>data = sv_data (view k), size_fs = sz\<rparr>,
               p\<lparr>map_set := \<lparr>view = view k, hash = hash k\<rparr> # map_set p\<rparr>))"

definition ensure_page :: "environment \<Rightarrow> fixed_page list \<Rightarrow> nat \<Rightarrow> fixed_page list" where
  "ensure_page env pgs sz =
    (if pgs = [] \<or> \<not> can_hold (last pgs) sz then pgs @ [new_page env (length pgs)] else pgs)"

definition get_string_key ::
    "environment \<Rightarrow> string_pool \<Rightarrow> string_key \<Rightarrow> (fixed_string \<times> string_pool) option" where
  "get_string_key env p k =
    (let sz = sv_size (view k) in
     case find_key env p k of
       Some it \<Rightarrow> Some (\<lparr>data = sv_data (view it), size_fs = sz\<rparr>, p)
     | None \<Rightarrow>
         (let pgs = ensure_page env (pages p) sz in
          case view_bytes env pgs (view k) of
            None \<Rightarrow> None
          | Some bs \<Rightarrow>
              (case push_back (length pgs - 1) bs (last pgs) of
                 None \<Rightarrow> None
               | Some (s, pg) \<Rightarrow>
                   Some (\<lparr>data = s, size_fs = sz\<rparr>,
                         \<lparr>map_set = \<lparr>view = \<lparr>sv_data = s, sv_size = sz\<rparr>, hash = hash k\<rparr>
                                      # map_set p,
                          pages = pgs[length pgs - 1 := pg]\<rparr>))))"

definition get_string_view ::
    "environment \<Rightarrow> string_pool \<Rightarrow> nat \<Rightarrow> nat \<Rightarrow> (fixed_string \<times> string_pool) option" where
  "get_string_view env p a n = get_string_key env p (string_key_of env a n)"

definition get_string_string ::
    "environment \<Rightarrow> string_pool \<Rightarrow> nat \<Rightarrow> nat \<Rightarrow> (fixed_string \<times> string_pool) option" where
  "get_string_string env p a n = get_string_key env p (string_key_of env a n)"

text \<open>\<open>fixed_string::view\<close> and the byte \<open>c_str()[size()]\<close>.\<close>

definition fs_view :: "fixed_string \<Rightarrow> string_view" where
  "fs_view s = \<lparr>sv_data = data s, sv_size = size_fs s\<rparr>"

definition terminator :: "environment \<Rightarrow> string_pool \<Rightarrow> fixed_string \<Rightarrow> byte" where
  "terminator env p s = peek env (pages p) (ptr_add (data s) (size_fs s))"

text \<open>
  A caller's sequence of calls. Each request names the overload and the \<open>n\<close> bytes at
  address \<open>a\<close> of the caller's memory that it passes. The strings a caller passes lie in
  the caller's memory, which stays as it is over the sequence: a literal is immutable,
  and bytes that a caller changes between two calls are bytes at another address here.
\<close>

datatype request = by_key nat nat | by_view nat nat | by_string nat nat | by_literal nat nat

fun content :: "environment \<Rightarrow> request \<Rightarrow> byte list" where
  "content env (by_key a n) = caller_bytes env a n"
| "content env (by_view a n) = caller_bytes env a n"
| "content env (by_string a n) = caller_bytes env a n"
| "content env (by_literal a n) = caller_bytes env a n"

fun serve :: "environment \<Rightarrow> string_pool \<Rightarrow> request \<Rightarrow> (fixed_string \<times> string_pool) option" where
  "serve env p (by_key a n) = get_string_key env p (string_key_of env a n)"
| "serve env p (by_view a n) = get_string_view env p a n"
| "serve env p (by_string a n) = get_string_string env p a n"
| "serve env p (by_literal a n) = get_string_literal env p (literal_key env a n)"

fun run :: "environment \<Rightarrow> string_pool \<Rightarrow> request list \<Rightarrow> (fixed_string list \<times> string_pool) option" where
  "run env p [] = Some ([], p)"
| "run env p (r # rs) =
    (case serve env p r of
       None \<Rightarrow> None
     | Some (h, p1) \<Rightarrow>
         (case run env p1 rs of
            None \<Rightarrow> None
          | Some (hs, p2) \<Rightarrow> Some (h # hs, p2)))"

text \<open>
  A string fits in a page when its bytes and the terminator are at most \<open>page_size\<close>
  bytes. The literal overload copies nothing, so a literal always fits.
\<close>

fun fits :: "request \<Rightarrow> bool" where
  "fits (by_literal a n) = True"
| "fits (by_key a n) = (n + 1 \<le> page_size)"
| "fits (by_view a n) = (n + 1 \<le> page_size)"
| "fits (by_string a n) = (n + 1 \<le> page_size)"

text \<open>
  The state every pool is in: no page has more free bytes than its buffer has, and every
  entry of the index that points into a page lies, with its terminator, in the part of
  the buffer already handed out. Both constructors establish it and every \<open>get_string\<close>
  keeps it.
\<close>

fun entry_ok :: "fixed_page list \<Rightarrow> string_key \<Rightarrow> bool" where
  "entry_ok pgs e =
    (case sv_data (view e) of
       caller_ptr a \<Rightarrow> True
     | page_ptr k off \<Rightarrow>
         k < length pgs \<and> off + sv_size (view e) + 1 \<le> page_size - remaining (pgs ! k))"

definition pool_inv :: "string_pool \<Rightarrow> bool" where
  "pool_inv p =
    (list_all (\<lambda>pg. remaining pg \<le> page_size) (pages p) \<and>
     list_all (entry_ok (pages p)) (map_set p))"

text \<open>A concrete caller memory for examples: address \<open>a\<close> holds the byte \<open>a mod 256\<close>.\<close>

definition example_env :: environment where
  "example_env = \<lparr>caller_mem = (\<lambda>a. of_nat a), fresh_mem = (\<lambda>k off. 0xAA)\<rparr>"

subsection \<open>Notions used in the proofs about the pool\<close>

text \<open>
  \<open>extends p q\<close>: the pool \<open>q\<close> has the pages of \<open>p\<close> and possibly more, no page has gained
  free bytes, every byte of \<open>p\<close> that was handed out is the same in \<open>q\<close>, and the index of
  \<open>q\<close> has the entries of \<open>p\<close>. \<open>copied env p k bs\<close> is the pool after \<open>get_string\<close> has
  copied the bytes \<open>bs\<close> of the key \<open>k\<close>. \<open>interned env q k bs h\<close>: the index of \<open>q\<close> finds
  an entry for \<open>k\<close>, the handle \<open>h\<close> points at it, and it reads \<open>bs\<close>. \<open>req_key\<close> is the key
  a request is looked up with.
\<close>

definition extends :: "string_pool \<Rightarrow> string_pool \<Rightarrow> bool" where
  "extends p q =
    (length (pages p) \<le> length (pages q) \<and>
     (\<forall>j < length (pages p).
        remaining (pages q ! j) \<le> remaining (pages p ! j) \<and>
        (\<forall>off < page_size - remaining (pages p ! j).
           buffer (pages q ! j) off = buffer (pages p ! j) off)) \<and>
     set (map_set p) \<subseteq> set (map_set q))"

definition copied :: "environment \<Rightarrow> string_pool \<Rightarrow> string_key \<Rightarrow> byte list \<Rightarrow> string_pool" where
  "copied env p k bs =
    (let pgs = ensure_page env (pages p) (sv_size (view k));
         this = length pgs - 1; cur = last pgs; at = page_size - remaining cur in
     \<lparr>map_set = \<lparr>view = \<lparr>sv_data = page_ptr this at, sv_size = sv_size (view k)\<rparr>,
                  hash = hash k\<rparr> # map_set p,
      pages = pgs[this := \<lparr>buffer = (write_bytes (buffer cur) at bs)(at + length bs := 0),
                            remaining = remaining cur - (length bs + 1)\<rparr>]\<rparr>)"

definition interned :: "environment \<Rightarrow> string_pool \<Rightarrow> string_key \<Rightarrow> byte list \<Rightarrow> fixed_string \<Rightarrow> bool" where
  "interned env q k bs h =
    (\<exists>it. find_key env q k = Some it \<and>
          h = \<lparr>data = sv_data (view it), size_fs = length bs\<rparr> \<and>
          view_bytes env (pages q) (view it) = Some bs)"

fun req_key :: "environment \<Rightarrow> request \<Rightarrow> string_key" where
  "req_key env (by_key a n) = string_key_of env a n"
| "req_key env (by_view a n) = string_key_of env a n"
| "req_key env (by_string a n) = string_key_of env a n"
| "req_key env (by_literal a n) = string_key_of env a n"

section \<open>Properties of the UTF-8 validators and the decoder\<close>

subsection \<open>One pass through the loop\<close>

lemma validate_loop_step:
  "validate_loop r i cnt =
    (if i < length r then
       (case vstep r i of
          Inl e \<Rightarrow> \<lparr>error = e, range = to_utf8 r i, codepoint_count = cnt\<rparr>
        | Inr n \<Rightarrow> validate_loop r (i + n) (cnt + 1))
     else \<lparr>error = success, range = to_utf8 r i, codepoint_count = cnt\<rparr>)"
  by (subst validate_loop.simps) (simp add: vstep_def vwin_def Let_def le_diff_conv)

lemma validate_quick_loop_step:
  "validate_quick_loop r i cnt =
    (if i < length r then
       (case qstep r i of
          Inl e \<Rightarrow> \<lparr>error = e, range = to_utf8 r i, codepoint_count = cnt\<rparr>
        | Inr n \<Rightarrow> validate_quick_loop r (i + n) (cnt + 1))
     else \<lparr>error = success, range = to_utf8 r i, codepoint_count = cnt\<rparr>)"
  by (subst validate_quick_loop.simps) (simp add: qstep_def qwin_def Let_def le_diff_conv)

lemma vloop_end: "\<not> i < length r \<Longrightarrow>
    validate_loop r i c = \<lparr>error = success, range = to_utf8 r i, codepoint_count = c\<rparr>"
  by (subst validate_loop_step) simp

lemma vloop_fail: "i < length r \<Longrightarrow> vstep r i = Inl e \<Longrightarrow>
    validate_loop r i c = \<lparr>error = e, range = to_utf8 r i, codepoint_count = c\<rparr>"
  by (subst validate_loop_step) simp

lemma vloop_next: "i < length r \<Longrightarrow> vstep r i = Inr n \<Longrightarrow>
    validate_loop r i c = validate_loop r (i + n) (c + 1)"
  by (subst validate_loop_step) simp

lemma qloop_end: "\<not> i < length r \<Longrightarrow>
    validate_quick_loop r i c = \<lparr>error = success, range = to_utf8 r i, codepoint_count = c\<rparr>"
  by (subst validate_quick_loop_step) simp

lemma qloop_fail: "i < length r \<Longrightarrow> qstep r i = Inl e \<Longrightarrow>
    validate_quick_loop r i c = \<lparr>error = e, range = to_utf8 r i, codepoint_count = c\<rparr>"
  by (subst validate_quick_loop_step) simp

lemma qloop_next: "i < length r \<Longrightarrow> qstep r i = Inr n \<Longrightarrow>
    validate_quick_loop r i c = validate_quick_loop r (i + n) (c + 1)"
  by (subst validate_quick_loop_step) simp

lemma vwin_Inr: "vwin a b1 b2 b3 b4 = Inr n \<Longrightarrow> 0 < n \<and> n \<le> 4 \<and> (0 < a \<longrightarrow> n \<le> a)"
  by (simp add: vwin_def split: if_splits)

lemma vstep_Inr:
  assumes "vstep r i = Inr n" and "i < length r"
  shows "0 < n \<and> i + n \<le> length r"
proof -
  from assms(1) have "0 < n \<and> n \<le> 4 \<and> (0 < length r - i \<longrightarrow> n \<le> length r - i)"
    unfolding vstep_def by (rule vwin_Inr)
  with assms(2) show ?thesis by auto
qed

lemma qwin_Inr: "qwin a b1 b2 b3 b4 = Inr n \<Longrightarrow> 0 < n \<and> n \<le> 4 \<and> (0 < a \<longrightarrow> n \<le> a)"
  by (simp add: qwin_def split: if_splits)

lemma qstep_Inr:
  assumes "qstep r i = Inr n" and "i < length r"
  shows "0 < n \<and> i + n \<le> length r"
proof -
  from assms(1) have "0 < n \<and> n \<le> 4 \<and> (0 < length r - i \<longrightarrow> n \<le> length r - i)"
    unfolding qstep_def by (rule qwin_Inr)
  with assms(2) show ?thesis by auto
qed

lemma qstep_not_semantic: "qstep r i \<noteq> Inl overlong_enocoding \<and> qstep r i \<noteq> Inl invalid_codepoint \<and> qstep r i \<noteq> Inl success"
  by (simp add: qstep_def qwin_def)

lemma vstep_not_success: "vstep r i \<noteq> Inl success"
  by (simp add: vstep_def vwin_def)

lemma vstep_qstep_Inr: "vstep r i = Inr n \<Longrightarrow> qstep r i = Inr n"
  by (simp add: vstep_def qstep_def vwin_def qwin_def split: if_splits)

lemma vstep_qstep_Inl:
  "vstep r i = Inl e \<Longrightarrow> e \<noteq> overlong_enocoding \<Longrightarrow> e \<noteq> invalid_codepoint \<Longrightarrow> qstep r i = Inl e"
  by (simp add: vstep_def qstep_def vwin_def qwin_def split: if_splits)

subsection \<open>The bit operations in arithmetic\<close>

lemma byte_exhaust:
  assumes "list_all (\<lambda>n. P (of_nat n :: 8 word)) [0..<256]"
  shows "P b"
proof -
  have "unat b < 256" using unsigned_less [of b] by simp
  then have "unat b \<in> set [0..<256]" by simp
  with assms have "P (of_nat (unat b))" unfolding list_all_iff by blast
  then show ?thesis by simp
qed

lemma continuation_test:
  "((ucast (b :: byte) XOR 0x80) AND (0xC0 :: 32 word) = 0) \<longleftrightarrow> (128 \<le> unat b \<and> unat b < 192)"
  by (rule byte_exhaust [of _ b]) code_simp

lemma or_and_zero: "((x OR y) AND (m :: 32 word) = 0) \<longleftrightarrow> (x AND m = 0 \<and> y AND m = 0)"
  by (simp add: bit.conj_disj_distrib2 or_eq_0_iff)

lemma unat_ucast_byte: "unat (ucast (b :: byte) :: 32 word) = unat b"
proof -
  have "unat b < 256" using unsigned_less [of b] by simp
  then have "unat b < 2 ^ 32" by simp
  then show ?thesis by (simp add: unsigned_ucast_eq take_bit_nat_eq_self)
qed

lemma unat_and_mask: "unat ((ucast (b :: byte) :: 32 word) AND mask n) = unat b mod 2 ^ n"
proof -
  have "unat ((ucast b :: 32 word) AND mask n) = unat (take_bit n (ucast b :: 32 word))"
    by (simp only: take_bit_eq_mask)
  also have "\<dots> = take_bit n (unat (ucast b :: 32 word))"
    by (simp only: unsigned_take_bit_eq)
  also have "\<dots> = unat b mod 2 ^ n"
    by (simp only: unat_ucast_byte take_bit_eq_mod)
  finally show ?thesis .
qed

lemma unat_low6: "unat ((ucast (b :: byte) :: 32 word) AND 0x3F) = unat b mod 64"
  using unat_and_mask [of b 6] by (simp add: mask_eq_exp_minus_1)

lemma unat_low5: "unat ((ucast (b :: byte) :: 32 word) AND 0x1F) = unat b mod 32"
  using unat_and_mask [of b 5] by (simp add: mask_eq_exp_minus_1)

lemma unat_low4: "unat ((ucast (b :: byte) :: 32 word) AND 0xF) = unat b mod 16"
  using unat_and_mask [of b 4] by (simp add: mask_eq_exp_minus_1)

lemma unat_low3: "unat ((ucast (b :: byte) :: 32 word) AND 0x7) = unat b mod 8"
  using unat_and_mask [of b 3] by (simp add: mask_eq_exp_minus_1)

lemma nat_or_disjoint: "x < 2 ^ n \<Longrightarrow> push_bit n (a::nat) OR x = a * 2 ^ n + x"
proof -
  assume "x < 2 ^ n"
  then have x: "take_bit n x = x" by (simp add: take_bit_nat_eq_self)
  have "push_bit n a + take_bit n x = push_bit n a OR take_bit n x"
    by (rule disjunctive_add) (auto simp: bit_simps)
  then show ?thesis by (simp add: x push_bit_eq_mult)
qed

lemma unat_push_small:
  "unat w * 2 ^ n < 2 ^ 32 \<Longrightarrow> unat (push_bit n (w :: 32 word)) = unat w * 2 ^ n"
  unfolding unsigned_push_bit_eq by (simp add: push_bit_eq_mult take_bit_nat_eq_self)

lemma unat_push_or:
  assumes "unat w * 2 ^ n < 2 ^ 32" and "unat y < 2 ^ n"
  shows "unat (push_bit n w OR y :: 32 word) = unat w * 2 ^ n + unat y"
proof -
  have "unat (push_bit n w OR y) = unat (push_bit n w) OR unat y"
    by (simp only: unsigned_or_eq)
  also have "\<dots> = push_bit n (unat w) OR unat y"
    using unat_push_small [OF assms(1)] by (simp only: push_bit_eq_mult)
  also have "\<dots> = unat w * 2 ^ n + unat y"
    using assms(2) by (rule nat_or_disjoint)
  finally show ?thesis .
qed

lemma unat_push_or_bytes:
  fixes w y :: "32 word"
  assumes w: "unat w = a" and y: "unat y = t" and a: "a < 2 ^ k" and t: "t < 2 ^ n"
    and k: "k + n \<le> 32"
  shows "unat (push_bit n w OR y) = a * 2 ^ n + t"
proof -
  have "a * 2 ^ n < 2 ^ k * 2 ^ n" using a by simp
  also have "\<dots> = 2 ^ (k + n)" by (simp add: power_add)
  also have "\<dots> \<le> (2 :: nat) ^ 32" using k by (intro power_increasing) simp_all
  finally have "unat w * 2 ^ n < 2 ^ 32" unfolding w .
  moreover have "unat y < 2 ^ n" unfolding y by (rule t)
  ultimately have "unat (push_bit n w OR y) = unat w * 2 ^ n + unat y" by (rule unat_push_or)
  then show ?thesis unfolding w y .
qed

lemma tail2_less: "(x :: nat) mod 64 * 2 ^ 6 + y mod 64 < 2 ^ 12"
proof -
  have "x mod 64 < 64" "y mod 64 < 64" by simp_all
  then show ?thesis by simp
qed

lemma tail3_less: "(x :: nat) mod 64 * 2 ^ 12 + (y mod 64 * 2 ^ 6 + z mod 64) < 2 ^ 18"
proof -
  have "x mod 64 < 64" "y mod 64 < 64" "z mod 64 < 64" by simp_all
  then show ?thesis by simp
qed

lemma tail2_unat:
  "unat (push_bit 6 (ucast (b2 :: byte) AND 0x3F) OR (ucast (b3 :: byte) AND 0x3F) :: 32 word)
     = unat b2 mod 64 * 2 ^ 6 + unat b3 mod 64"
  by (rule unat_push_or_bytes [where k = 6]) (simp_all only: unat_low6, simp_all)

lemma tail3_unat:
  "unat (push_bit 12 (ucast (b2 :: byte) AND 0x3F) OR push_bit 6 (ucast (b3 :: byte) AND 0x3F)
          OR (ucast (b4 :: byte) AND 0x3F) :: 32 word)
     = unat b2 mod 64 * 2 ^ 12 + (unat b3 mod 64 * 2 ^ 6 + unat b4 mod 64)"
  by (rule unat_push_or_bytes [where k = 6]) (simp_all only: unat_low6 tail2_unat tail2_less, simp_all)

lemma codepoint2_unat:
  "unat (push_bit 6 (ucast (b1 :: byte) AND 0x1F) OR (ucast (b2 :: byte) AND 0x3F) :: 32 word)
     = unat b1 mod 32 * 64 + unat b2 mod 64"
proof -
  have "unat (push_bit 6 (ucast b1 AND 0x1F) OR (ucast b2 AND 0x3F) :: 32 word)
     = unat b1 mod 32 * 2 ^ 6 + unat b2 mod 64"
    by (rule unat_push_or_bytes [where k = 5]) (simp_all only: unat_low5 unat_low6, simp_all)
  then show ?thesis by (simp only: power_numeral) simp
qed

lemma codepoint3_unat:
  "unat (push_bit 12 (ucast (b1 :: byte) AND 0xF) OR push_bit 6 (ucast (b2 :: byte) AND 0x3F)
          OR (ucast (b3 :: byte) AND 0x3F) :: 32 word)
     = unat b1 mod 16 * 4096 + (unat b2 mod 64 * 64 + unat b3 mod 64)"
proof -
  have "unat (push_bit 12 (ucast b1 AND 0xF) OR push_bit 6 (ucast b2 AND 0x3F)
          OR (ucast b3 AND 0x3F) :: 32 word)
     = unat b1 mod 16 * 2 ^ 12 + (unat b2 mod 64 * 2 ^ 6 + unat b3 mod 64)"
    by (rule unat_push_or_bytes [where k = 4])
       (simp_all only: unat_low4 tail2_unat tail2_less, simp_all)
  then show ?thesis by (simp only: power_numeral) simp
qed

lemma codepoint4_unat:
  "unat (push_bit 18 (ucast (b1 :: byte) AND 0x7) OR push_bit 12 (ucast (b2 :: byte) AND 0x3F)
          OR push_bit 6 (ucast (b3 :: byte) AND 0x3F) OR (ucast (b4 :: byte) AND 0x3F) :: 32 word)
     = unat b1 mod 8 * 262144
       + (unat b2 mod 64 * 4096 + (unat b3 mod 64 * 64 + unat b4 mod 64))"
proof -
  have "unat (push_bit 18 (ucast b1 AND 0x7) OR push_bit 12 (ucast b2 AND 0x3F)
          OR push_bit 6 (ucast b3 AND 0x3F) OR (ucast b4 AND 0x3F) :: 32 word)
     = unat b1 mod 8 * 2 ^ 18
       + (unat b2 mod 64 * 2 ^ 12 + (unat b3 mod 64 * 2 ^ 6 + unat b4 mod 64))"
    by (rule unat_push_or_bytes [where k = 3])
       (simp_all only: unat_low3 tail3_unat tail3_less, simp_all)
  then show ?thesis by (simp only: power_numeral) simp
qed

lemma cont1: "((ucast (b2 :: byte) XOR 0x80) AND (0xC0 :: 32 word) \<noteq> 0) = (\<not> is_cont b2)"
  by (simp only: continuation_test is_cont_def)

lemma cont2: "(((ucast (b2 :: byte) XOR 0x80) OR (ucast (b3 :: byte) XOR 0x80)) AND (0xC0 :: 32 word) \<noteq> 0)
    = (\<not> (is_cont b2 \<and> is_cont b3))"
  by (simp only: or_and_zero continuation_test is_cont_def)

lemma cont3: "(((ucast (b2 :: byte) XOR 0x80) OR (ucast (b3 :: byte) XOR 0x80) OR (ucast (b4 :: byte) XOR 0x80))
     AND (0xC0 :: 32 word) \<noteq> 0)
    = (\<not> (is_cont b2 \<and> is_cont b3 \<and> is_cont b4))"
  by (simp only: or_and_zero continuation_test is_cont_def)

lemma vwin_nat:
  "vwin avail b1 b2 b3 b4 =
     (if unat b1 < 128 then Inr 1
      else if unat b1 < 192 then Inl unexpected_continuation_byte
      else if unat b1 < 224 then
        (if avail \<le> 1 then Inl unexpected_end
         else if \<not> is_cont b2 then Inl unexpected_non_continuation_byte
         else if unat b1 mod 32 * 64 + unat b2 mod 64 < 127 then Inl overlong_enocoding
         else Inr 2)
      else if unat b1 < 240 then
        (if avail \<le> 2 then Inl unexpected_end
         else if \<not> (is_cont b2 \<and> is_cont b3) then Inl unexpected_non_continuation_byte
         else if unat b1 mod 16 * 4096 + (unat b2 mod 64 * 64 + unat b3 mod 64) \<le> 2047 then
           Inl overlong_enocoding
         else Inr 3)
      else if unat b1 < 248 then
        (if avail \<le> 3 then Inl unexpected_end
         else if \<not> (is_cont b2 \<and> is_cont b3 \<and> is_cont b4) then
           Inl unexpected_non_continuation_byte
         else if 1114111 < unat b1 mod 8 * 262144
                 + (unat b2 mod 64 * 4096 + (unat b3 mod 64 * 64 + unat b4 mod 64)) then
           Inl invalid_codepoint
         else if unat b1 mod 8 * 262144
                 + (unat b2 mod 64 * 4096 + (unat b3 mod 64 * 64 + unat b4 mod 64)) \<le> 65535 then
           Inl overlong_enocoding
         else Inr 4)
      else Inl invalid_byte)"
  unfolding vwin_def
  apply (simp only: cont1 cont2 cont3 word_less_nat_alt word_le_nat_alt codepoint2_unat codepoint3_unat codepoint4_unat)
  apply simp
  done

lemma qwin_nat:
  "qwin avail b1 b2 b3 b4 =
     (if unat b1 < 128 then Inr 1
      else if unat b1 < 192 then Inl unexpected_continuation_byte
      else if unat b1 < 224 then
        (if avail \<le> 1 then Inl unexpected_end
         else if \<not> is_cont b2 then Inl unexpected_non_continuation_byte
         else Inr 2)
      else if unat b1 < 240 then
        (if avail \<le> 2 then Inl unexpected_end
         else if \<not> (is_cont b2 \<and> is_cont b3) then Inl unexpected_non_continuation_byte
         else Inr 3)
      else if unat b1 < 248 then
        (if avail \<le> 3 then Inl unexpected_end
         else if \<not> (is_cont b2 \<and> is_cont b3 \<and> is_cont b4) then
           Inl unexpected_non_continuation_byte
         else Inr 4)
      else Inl invalid_byte)"
  unfolding qwin_def
  apply (simp only: cont1 cont2 cont3 word_less_nat_alt word_le_nat_alt)
  apply simp
  done

lemma dwin_nat:
  "unat (dwin b1 b2 b3 b4) =
     (if unat b1 < 128 then unat b1
      else if unat b1 < 224 then unat b1 mod 32 * 64 + unat b2 mod 64
      else if unat b1 < 240 then unat b1 mod 16 * 4096 + (unat b2 mod 64 * 64 + unat b3 mod 64)
      else unat b1 mod 8 * 262144
             + (unat b2 mod 64 * 4096 + (unat b3 mod 64 * 64 + unat b4 mod 64)))"
  unfolding dwin_def
  apply (simp only: word_less_nat_alt if_distrib [of unat] codepoint2_unat codepoint3_unat codepoint4_unat unat_ucast_byte)
  apply simp
  done

lemma word_eq_of_nat: "unat (w :: 32 word) = n \<Longrightarrow> w = of_nat n"
  by auto

subsection \<open>Encoded codepoints pass the validator and decode to themselves\<close>

lemma unat_byte_of_nat: "n < 256 \<Longrightarrow> unat (of_nat n :: byte) = n"
  by (simp add: unat_of_nat)

lemma is_cont_of_nat: "m < 64 \<Longrightarrow> is_cont (of_nat (128 + m))"
  by (simp add: is_cont_def unat_byte_of_nat del: of_nat_add)

lemma low6_of_nat: "m < 64 \<Longrightarrow> unat (of_nat (128 + m) :: byte) mod 64 = m"
  using mod_mult_self2 [of m 64 2] by (simp add: unat_byte_of_nat add.commute del: of_nat_add)

lemma lead2_mod: "q < 32 \<Longrightarrow> (192 + q) mod 32 = (q :: nat)"
  using mod_mult_self2 [of q 32 6] by (simp add: add.commute)

lemma lead3_mod: "q < 16 \<Longrightarrow> (224 + q) mod 16 = (q :: nat)"
  using mod_mult_self2 [of q 16 14] by (simp add: add.commute)

lemma lead4_mod: "q < 8 \<Longrightarrow> (240 + q) mod 8 = (q :: nat)"
  using mod_mult_self2 [of q 8 30] by (simp add: add.commute)

lemma split64: "(x :: nat) div 64 mod 64 * 64 + x mod 64 = x mod 4096"
  using mod_mult2_eq [of x 64 64] by simp

lemma split4096: "(x :: nat) div 4096 mod 64 * 4096 + x mod 4096 = x mod 262144"
  using mod_mult2_eq [of x 4096 64] by simp

lemma join3: "(cp :: nat) div 4096 * 4096 + (cp div 64 mod 64 * 64 + cp mod 64) = cp"
  by (simp only: split64) simp

lemma join4: "(cp :: nat) div 262144 * 262144
    + (cp div 4096 mod 64 * 4096 + (cp div 64 mod 64 * 64 + cp mod 64)) = cp"
  by (simp only: split64 split4096) simp

lemma vwin_enc1: "cp < 128 \<Longrightarrow> vwin a (of_nat cp) b2 b3 b4 = Inr 1"
  by (simp add: vwin_nat unat_byte_of_nat)

lemma vwin_enc2:
  assumes "128 \<le> cp" "cp < 2048" "2 \<le> a"
  shows "vwin a (of_nat (192 + cp div 64)) (of_nat (128 + cp mod 64)) b3 b4 = Inr 2"
proof -
  have q: "cp div 64 < 32" using assms by simp
  then have u1: "unat (of_nat (192 + cp div 64) :: byte) = 192 + cp div 64"
    by (intro unat_byte_of_nat) simp
  have c: "cp div 64 * 64 + cp mod 64 = cp" by simp
  have l: "cp mod 64 < 64" by simp
  show ?thesis
    unfolding vwin_nat u1 lead2_mod [OF q] low6_of_nat [OF l] c
    using assms q by (simp add: is_cont_of_nat del: of_nat_add)
qed

lemma vwin_enc3:
  assumes "2048 \<le> cp" "cp < 65536" "3 \<le> a"
  shows "vwin a (of_nat (224 + cp div 4096)) (of_nat (128 + cp div 64 mod 64))
           (of_nat (128 + cp mod 64)) b4 = Inr 3"
proof -
  have q: "cp div 4096 < 16" using assms by simp
  then have u1: "unat (of_nat (224 + cp div 4096) :: byte) = 224 + cp div 4096"
    by (intro unat_byte_of_nat) simp
  have l: "cp mod 64 < 64" "cp div 64 mod 64 < 64" by simp_all
  show ?thesis
    unfolding vwin_nat u1 lead3_mod [OF q] low6_of_nat [OF l(1)] low6_of_nat [OF l(2)] join3
    using assms q by (simp add: is_cont_of_nat del: of_nat_add)
qed

lemma vwin_enc4:
  assumes "65536 \<le> cp" "cp \<le> 1114111" "4 \<le> a"
  shows "vwin a (of_nat (240 + cp div 262144)) (of_nat (128 + cp div 4096 mod 64))
           (of_nat (128 + cp div 64 mod 64)) (of_nat (128 + cp mod 64)) = Inr 4"
proof -
  have q: "cp div 262144 < 8" using assms by simp
  then have u1: "unat (of_nat (240 + cp div 262144) :: byte) = 240 + cp div 262144"
    by (intro unat_byte_of_nat) simp
  have l: "cp mod 64 < 64" "cp div 64 mod 64 < 64" "cp div 4096 mod 64 < 64" by simp_all
  show ?thesis
    unfolding vwin_nat u1 lead4_mod [OF q] low6_of_nat [OF l(1)] low6_of_nat [OF l(2)]
      low6_of_nat [OF l(3)] join4
    using assms q by (simp add: is_cont_of_nat del: of_nat_add)
qed

lemma utf8_encode_length: "0 < length (utf8_encode cp) \<and> length (utf8_encode cp) \<le> 4"
  by (simp add: utf8_encode_def)

lemma vstep_encoded:
  assumes "cp \<le> 1114111"
  shows "vstep (pre @ utf8_encode cp @ rest) (length pre) = Inr (length (utf8_encode cp))"
proof -
  consider "cp < 128" | "128 \<le> cp" "cp < 2048" | "2048 \<le> cp" "cp < 65536" | "65536 \<le> cp"
    by linarith
  then show ?thesis
  proof cases
    case 1
    then show ?thesis by (simp add: vstep_def utf8_encode_def nth_append vwin_enc1 del: of_nat_add)
  next
    case 2
    then show ?thesis by (simp add: vstep_def utf8_encode_def nth_append vwin_enc2 del: of_nat_add)
  next
    case 3
    then show ?thesis by (simp add: vstep_def utf8_encode_def nth_append vwin_enc3 del: of_nat_add)
  next
    case 4
    with assms show ?thesis by (simp add: vstep_def utf8_encode_def nth_append vwin_enc4 del: of_nat_add)
  qed
qed

lemma utf8_encode_all_Cons: "utf8_encode_all (cp # cps) = utf8_encode cp @ utf8_encode_all cps"
  by (simp add: utf8_encode_all_def)

lemma vloop_encoded:
  "\<forall>cp \<in> set cps. cp \<le> 1114111 \<Longrightarrow>
   validate_loop (pre @ utf8_encode_all cps) (length pre) c =
     \<lparr>error = success,
      range = to_utf8 (pre @ utf8_encode_all cps) (length pre + length (utf8_encode_all cps)),
      codepoint_count = c + length cps\<rparr>"
proof (induction cps arbitrary: pre c)
  case Nil
  show ?case by (subst vloop_end) (simp_all add: utf8_encode_all_def)
next
  case (Cons cp cps)
  let ?e = "utf8_encode cp"
  let ?r = "pre @ utf8_encode_all (cp # cps)"
  have r: "?r = (pre @ ?e) @ utf8_encode_all cps" by (simp add: utf8_encode_all_Cons)
  have cp: "cp \<le> 1114111" using Cons.prems by simp
  have pos: "0 < length ?e" using utf8_encode_length [of cp] by simp
  have st: "vstep ?r (length pre) = Inr (length ?e)"
    unfolding utf8_encode_all_Cons using cp by (rule vstep_encoded)
  have il: "length pre < length ?r" using pos by (simp add: utf8_encode_all_Cons)
  have "validate_loop ?r (length pre) c = validate_loop ?r (length pre + length ?e) (c + 1)"
    using il st by (rule vloop_next)
  also have "\<dots> = validate_loop ((pre @ ?e) @ utf8_encode_all cps) (length (pre @ ?e)) (c + 1)"
    by (simp only: r length_append)
  also have "\<dots> = \<lparr>error = success,
      range = to_utf8 ((pre @ ?e) @ utf8_encode_all cps)
                (length (pre @ ?e) + length (utf8_encode_all cps)),
      codepoint_count = (c + 1) + length cps\<rparr>"
    using Cons.prems by (intro Cons.IH) simp
  finally show ?case by (simp add: utf8_encode_all_Cons add.assoc)
qed

lemma scalar_le: "unicode_scalar_value cp \<Longrightarrow> cp \<le> 1114111"
  by (simp add: unicode_scalar_value_def)

lemma deref_dwin:
  assumes "vstep r i = Inr n" and "i < length r"
  shows "deref \<lparr>mem = r, str = i\<rparr> = Inr (dwin (r ! i) (r ! (i + 1)) (r ! (i + 2)) (r ! (i + 3)))"
  using assms unfolding vstep_def vwin_nat deref_def byte_def dwin_def word_less_nat_alt
  by (auto split: if_splits)

lemma incr_step:
  assumes "vstep r i = Inr n" and "i < length r"
  shows "incr \<lparr>mem = r, str = i\<rparr> = Inr \<lparr>mem = r, str = i + n\<rparr>"
  using assms unfolding vstep_def vwin_nat incr_def byte_def word_le_nat_alt
  by (auto split: if_splits)

lemma dwin_bound:
  assumes "vwin a b1 b2 b3 b4 = Inr n"
  shows "unat (dwin b1 b2 b3 b4) \<le> 1114111"
proof -
  have m: "unat b1 mod 32 < 32" "unat b1 mod 16 < 16" "unat b2 mod 64 < 64" "unat b3 mod 64 < 64"
    by simp_all
  show ?thesis
    using assms m unfolding vwin_nat dwin_nat by (simp split: if_splits)
qed

lemma dwin_enc1: "cp < 128 \<Longrightarrow> dwin (of_nat cp) b2 b3 b4 = of_nat cp"
  by (rule word_eq_of_nat) (simp add: dwin_nat unat_byte_of_nat)

lemma dwin_enc2:
  assumes "128 \<le> cp" "cp < 2048"
  shows "dwin (of_nat (192 + cp div 64)) (of_nat (128 + cp mod 64)) b3 b4 = of_nat cp"
proof (rule word_eq_of_nat)
  have q: "cp div 64 < 32" using assms by simp
  then have u1: "unat (of_nat (192 + cp div 64) :: byte) = 192 + cp div 64"
    by (intro unat_byte_of_nat) simp
  have c: "cp div 64 * 64 + cp mod 64 = cp" by simp
  have l: "cp mod 64 < 64" by simp
  show "unat (dwin (of_nat (192 + cp div 64)) (of_nat (128 + cp mod 64)) b3 b4) = cp"
    unfolding dwin_nat u1 lead2_mod [OF q] low6_of_nat [OF l] c
    using assms q by simp
qed

lemma dwin_enc3:
  assumes "2048 \<le> cp" "cp < 65536"
  shows "dwin (of_nat (224 + cp div 4096)) (of_nat (128 + cp div 64 mod 64))
           (of_nat (128 + cp mod 64)) b4 = of_nat cp"
proof (rule word_eq_of_nat)
  have q: "cp div 4096 < 16" using assms by simp
  then have u1: "unat (of_nat (224 + cp div 4096) :: byte) = 224 + cp div 4096"
    by (intro unat_byte_of_nat) simp
  have l: "cp mod 64 < 64" "cp div 64 mod 64 < 64" by simp_all
  show "unat (dwin (of_nat (224 + cp div 4096)) (of_nat (128 + cp div 64 mod 64))
           (of_nat (128 + cp mod 64)) b4) = cp"
    unfolding dwin_nat u1 lead3_mod [OF q] low6_of_nat [OF l(1)] low6_of_nat [OF l(2)] join3
    using assms q by simp
qed

lemma dwin_enc4:
  assumes "65536 \<le> cp" "cp \<le> 1114111"
  shows "dwin (of_nat (240 + cp div 262144)) (of_nat (128 + cp div 4096 mod 64))
           (of_nat (128 + cp div 64 mod 64)) (of_nat (128 + cp mod 64)) = of_nat cp"
proof (rule word_eq_of_nat)
  have q: "cp div 262144 < 8" using assms by simp
  then have u1: "unat (of_nat (240 + cp div 262144) :: byte) = 240 + cp div 262144"
    by (intro unat_byte_of_nat) simp
  have l: "cp mod 64 < 64" "cp div 64 mod 64 < 64" "cp div 4096 mod 64 < 64" by simp_all
  show "unat (dwin (of_nat (240 + cp div 262144)) (of_nat (128 + cp div 4096 mod 64))
           (of_nat (128 + cp div 64 mod 64)) (of_nat (128 + cp mod 64))) = cp"
    unfolding dwin_nat u1 lead4_mod [OF q] low6_of_nat [OF l(1)] low6_of_nat [OF l(2)]
      low6_of_nat [OF l(3)] join4
    using assms q by simp
qed

lemma dwin_encoded:
  assumes "cp \<le> 1114111"
  shows "dwin ((pre @ utf8_encode cp @ rest) ! length pre)
              ((pre @ utf8_encode cp @ rest) ! (length pre + 1))
              ((pre @ utf8_encode cp @ rest) ! (length pre + 2))
              ((pre @ utf8_encode cp @ rest) ! (length pre + 3)) = of_nat cp"
proof -
  consider "cp < 128" | "128 \<le> cp" "cp < 2048" | "2048 \<le> cp" "cp < 65536" | "65536 \<le> cp"
    by linarith
  then show ?thesis
  proof cases
    case 1
    then show ?thesis by (simp add: utf8_encode_def nth_append dwin_enc1 del: of_nat_add)
  next
    case 2
    then show ?thesis by (simp add: utf8_encode_def nth_append dwin_enc2 del: of_nat_add)
  next
    case 3
    then show ?thesis by (simp add: utf8_encode_def nth_append dwin_enc3 del: of_nat_add)
  next
    case 4
    with assms show ?thesis by (simp add: utf8_encode_def nth_append dwin_enc4 del: of_nat_add)
  qed
qed

lemma iterate_end: "str it = str e \<Longrightarrow> iterate it e out = Inr out"
  by (subst iterate.simps) (simp add: it_eq_def)

lemma iterate_next:
  "str it \<noteq> str e \<Longrightarrow> deref it = Inr cp \<Longrightarrow> incr it = Inr it' \<Longrightarrow>
   iterate it e out = iterate it' e (out @ [cp])"
  by (subst iterate.simps) (simp add: it_eq_def)

lemma iterate_encoded:
  "\<forall>cp \<in> set cps. cp \<le> 1114111 \<Longrightarrow>
   iterate \<lparr>mem = pre @ utf8_encode_all cps, str = length pre\<rparr>
           \<lparr>mem = pre @ utf8_encode_all cps, str = length pre + length (utf8_encode_all cps)\<rparr> out
     = Inr (out @ map of_nat cps)"
proof (induction cps arbitrary: pre out)
  case Nil
  show ?case by (subst iterate_end) (simp_all add: utf8_encode_all_def)
next
  case (Cons cp cps)
  let ?e = "utf8_encode cp"
  let ?t = "utf8_encode_all cps"
  let ?r = "pre @ ?e @ ?t"
  let ?end = "\<lparr>mem = ?r, str = length pre + length ?e + length ?t\<rparr>"
  have cp: "cp \<le> 1114111" using Cons.prems by simp
  have pos: "0 < length ?e" using utf8_encode_length [of cp] by simp
  have st: "vstep ?r (length pre) = Inr (length ?e)"
    using cp by (rule vstep_encoded)
  have il: "length pre < length ?r" using pos by simp
  have d: "deref \<lparr>mem = ?r, str = length pre\<rparr> = Inr (of_nat cp)"
    using deref_dwin [OF st il] dwin_encoded [OF cp, of pre ?t] by simp
  have i: "incr \<lparr>mem = ?r, str = length pre\<rparr> = Inr \<lparr>mem = ?r, str = length pre + length ?e\<rparr>"
    using st il by (rule incr_step)
  have ne: "str \<lparr>mem = ?r, str = length pre\<rparr> \<noteq> str ?end"
    using pos by simp
  have "iterate \<lparr>mem = ?r, str = length pre\<rparr> ?end out
        = iterate \<lparr>mem = ?r, str = length pre + length ?e\<rparr> ?end (out @ [of_nat cp])"
    using ne d i by (rule iterate_next)
  also have "\<dots> = iterate \<lparr>mem = (pre @ ?e) @ ?t, str = length (pre @ ?e)\<rparr>
       \<lparr>mem = (pre @ ?e) @ ?t, str = length (pre @ ?e) + length ?t\<rparr> (out @ [of_nat cp])"
    by simp
  also have "\<dots> = Inr ((out @ [of_nat cp]) @ map of_nat cps)"
    using Cons.prems by (intro Cons.IH) simp
  finally show ?case by (simp add: utf8_encode_all_Cons add.assoc)
qed

lemma iterate_valid:
  assumes "error (validate_loop r i c) = success" and "i \<le> length r"
  shows "\<exists>cps. iterate \<lparr>mem = r, str = i\<rparr> \<lparr>mem = r, str = length r\<rparr> out = Inr (out @ cps) \<and>
           c + length cps = codepoint_count (validate_loop r i c) \<and>
           (\<forall>cp \<in> set cps. cp \<le> 0x10FFFF) \<and>
           range (validate_loop r i c) = to_utf8 r (length r)"
  using assms
proof (induction "length r - i" arbitrary: i c out rule: less_induct)
  case less
  show ?case
  proof (cases "i < length r")
    case False
    with less.prems have i: "i = length r" by simp
    show ?thesis
      by (rule exI [of _ "[]"]) (simp add: i vloop_end iterate_end)
  next
    case True
    show ?thesis
    proof (cases "vstep r i")
      case (Inl e)
      with True less.prems(1) vstep_not_success [of r i] show ?thesis
        by (simp add: vloop_fail)
    next
      case (Inr n)
      with True vstep_Inr [of r i n] have n: "0 < n" "i + n \<le> length r" by auto
      then have m: "length r - (i + n) < length r - i" using True by arith
      have eq: "validate_loop r i c = validate_loop r (i + n) (c + 1)"
        using True Inr by (rule vloop_next)
      let ?cp = "dwin (r ! i) (r ! (i + 1)) (r ! (i + 2)) (r ! (i + 3))"
      have d: "deref \<lparr>mem = r, str = i\<rparr> = Inr ?cp" using Inr True by (rule deref_dwin)
      have b: "?cp \<le> 0x10FFFF"
        using dwin_bound [OF Inr [unfolded vstep_def]] by (simp add: word_le_nat_alt)
      have s: "incr \<lparr>mem = r, str = i\<rparr> = Inr \<lparr>mem = r, str = i + n\<rparr>"
        using Inr True by (rule incr_step)
      have it: "iterate \<lparr>mem = r, str = i\<rparr> \<lparr>mem = r, str = length r\<rparr> out
                = iterate \<lparr>mem = r, str = i + n\<rparr> \<lparr>mem = r, str = length r\<rparr> (out @ [?cp])"
        using True by (intro iterate_next d s) simp
      from less.prems(1) eq have "error (validate_loop r (i + n) (c + 1)) = success" by simp
      from less.hyps [OF m this n(2), of "out @ [?cp]"] obtain cps where
        cps: "iterate \<lparr>mem = r, str = i + n\<rparr> \<lparr>mem = r, str = length r\<rparr> (out @ [?cp])
                = Inr ((out @ [?cp]) @ cps)"
             "c + 1 + length cps = codepoint_count (validate_loop r (i + n) (c + 1))"
             "\<forall>cp \<in> set cps. cp \<le> 0x10FFFF"
             "range (validate_loop r (i + n) (c + 1)) = to_utf8 r (length r)"
        by blast
      show ?thesis
        by (rule exI [of _ "?cp # cps"]) (use it cps b eq in simp)
    qed
  qed
qed

subsection \<open>Well-formed input\<close>

text \<open>
  Claim C1. For every list of Unicode scalar values, \<open>validate\<close> on the concatenation of
  their minimal-length UTF-8 encodings returns \<open>success\<close>, with \<open>codepoint_count\<close> the
  number of scalar values and the prefix range spanning the whole input. For the empty
  list this is the empty input: \<open>success\<close>, no codepoint, the empty range.
\<close>

theorem validate_well_formed:
  assumes "\<forall>cp \<in> set cps. unicode_scalar_value cp"
  shows "validate (utf8_encode_all cps) =
           \<lparr>error = success,
            range = to_utf8 (utf8_encode_all cps) (length (utf8_encode_all cps)),
            codepoint_count = length cps\<rparr>"
proof -
  from assms have "\<forall>cp \<in> set cps. cp \<le> 1114111" by (blast dest: scalar_le)
  from vloop_encoded [OF this, of "[]" 0] show ?thesis by (simp add: validate_def)
qed

theorem validate_well_formed_witness:
  "unicode_scalar_value 0x41 \<and> unicode_scalar_value 0xE9 \<and>
   unicode_scalar_value 0x20AC \<and> unicode_scalar_value 0x1F600 \<and>
   utf8_encode_all [0x41, 0xE9, 0x20AC, 0x1F600]
     = [0x41, 0xC3, 0xA9, 0xE2, 0x82, 0xAC, 0xF0, 0x9F, 0x98, 0x80] \<and>
   validate [0x41, 0xC3, 0xA9, 0xE2, 0x82, 0xAC, 0xF0, 0x9F, 0x98, 0x80] =
     \<lparr>error = success,
      range = to_utf8 [0x41, 0xC3, 0xA9, 0xE2, 0x82, 0xAC, 0xF0, 0x9F, 0x98, 0x80] 10,
      codepoint_count = 4\<rparr> \<and>
   validate [] = \<lparr>error = success, range = to_utf8 [] 0, codepoint_count = 0\<rparr>"
proof -
  have h: "\<forall>cp \<in> set [0x41, 0xE9, 0x20AC, 0x1F600]. unicode_scalar_value cp"
    by (simp add: unicode_scalar_value_def)
  have e: "utf8_encode_all [0x41, 0xE9, 0x20AC, 0x1F600]
             = [0x41, 0xC3, 0xA9, 0xE2, 0x82, 0xAC, 0xF0, 0x9F, 0x98, 0x80]"
    by (simp add: utf8_encode_all_def utf8_encode_def)
  have n: "utf8_encode_all [] = []" by (simp add: utf8_encode_all_def)
  have l10: "length [0x41, 0xC3, 0xA9, 0xE2, 0x82, 0xAC, 0xF0, 0x9F, 0x98, 0x80 :: byte] = 10"
    by simp
  have l4: "length [0x41, 0xE9, 0x20AC, 0x1F600 :: nat] = 4" by simp
  have a: "validate [0x41, 0xC3, 0xA9, 0xE2, 0x82, 0xAC, 0xF0, 0x9F, 0x98, 0x80] =
     \<lparr>error = success,
      range = to_utf8 [0x41, 0xC3, 0xA9, 0xE2, 0x82, 0xAC, 0xF0, 0x9F, 0x98, 0x80] 10,
      codepoint_count = 4\<rparr>"
    using validate_well_formed [OF h] unfolding e l10 l4 .
  have b: "validate [] = \<lparr>error = success, range = to_utf8 [] 0, codepoint_count = 0\<rparr>"
    using validate_well_formed [of "[]"] unfolding n by simp
  from h a b e show ?thesis by simp
qed

subsection \<open>Overlong encodings\<close>

text \<open>
  Claim C2. An overlong two-byte sequence is one that decodes to a value of at most
  \<open>0x7F\<close>. The bytes \<open>C1 BF\<close> are a lead byte \<open>110xxxxx\<close> and a continuation byte that
  decode to \<open>0x7F\<close>; the two-byte branch tests \<open>codepoint < 0x7F\<close>, and \<open>validate\<close>
  returns \<open>success\<close> for them, with one codepoint and the whole input as the prefix.
\<close>

theorem overlong_7F_accepted:
  "validate [0xC1, 0xBF] = \<lparr>error = success, range = to_utf8 [0xC1, 0xBF] 2, codepoint_count = 1\<rparr>"
  by code_simp

subsection \<open>The prefix and the count of a failing result\<close>

text \<open>
  The code against the per-position algorithm of the specification. One pass of the loop
  of \<open>validate_quick\<close> is the algorithm at that position; one pass of the loop of
  \<open>validate\<close> is, unless the bytes at that position are \<open>C1 BF\<close>, the one two-byte sequence
  of value \<open>0x7F\<close>. So \<open>validate_quick\<close> returns what the algorithm returns on every
  input, error kind, prefix and count, and \<open>validate\<close> does on every input in which no
  byte \<open>C1\<close> is followed by a byte \<open>BF\<close>.
\<close>

lemma spec_continuation_bytes_simps:
  "spec_continuation_bytes 2 bs = [bs ! 1]"
  "spec_continuation_bytes 3 bs = [bs ! 1, bs ! 2]"
  "spec_continuation_bytes 4 bs = [bs ! 1, bs ! 2, bs ! 3]"
  by (simp_all add: spec_continuation_bytes_def upt_conv_Cons eval_nat_numeral)

lemma spec_assembled_simps:
  "spec_assembled 2 bs = unat (bs ! 0) mod 32 * 64 + unat (bs ! 1) mod 64"
  "spec_assembled 3 bs
     = unat (bs ! 0) mod 16 * 4096 + (unat (bs ! 1) mod 64 * 64 + unat (bs ! 2) mod 64)"
  "spec_assembled 4 bs = unat (bs ! 0) mod 8 * 262144
     + (unat (bs ! 1) mod 64 * 4096 + (unat (bs ! 2) mod 64 * 64 + unat (bs ! 3) mod 64))"
  by (simp_all add: spec_assembled_def spec_continuation_bytes_simps algebra_simps)

lemma spec_overlong_simps:
  "spec_overlong 2 v = (v \<le> 127)" "spec_overlong 3 v = (v \<le> 2047)"
  "spec_overlong 4 v = (v \<le> 65535)"
  by (simp_all add: spec_overlong_def)

lemma spec_lead_byte_nat:
  "spec_lead_byte b =
    (if unat b < 128 then Inr 1
     else if unat b < 192 then Inl unexpected_continuation_byte
     else if unat b < 224 then Inr 2
     else if unat b < 240 then Inr 3
     else if unat b < 248 then Inr 4
     else Inl invalid_byte)"
  unfolding spec_lead_byte_def by (auto simp: not_less not_le)

lemma mod32_193: "192 \<le> (x :: nat) \<Longrightarrow> x < 224 \<Longrightarrow> x mod 32 = 1 \<Longrightarrow> x = 193"
proof -
  assume a: "192 \<le> x" "x < 224" "x mod 32 = 1"
  define d where "d = x - 192"
  have x: "x = 192 + d" and d: "d < 32" using a(1,2) by (simp_all add: d_def)
  have "(192 + d) mod 32 = d" using mod_mult_self2 [of d 32 6] d by (simp add: add.commute)
  with a(3) x show ?thesis by simp
qed

lemma mod64_191: "128 \<le> (y :: nat) \<Longrightarrow> y < 192 \<Longrightarrow> y mod 64 = 63 \<Longrightarrow> y = 191"
proof -
  assume a: "128 \<le> y" "y < 192" "y mod 64 = 63"
  define d where "d = y - 128"
  have y: "y = 128 + d" and d: "d < 64" using a(1,2) by (simp_all add: d_def)
  have "(128 + d) mod 64 = d" using mod_mult_self2 [of d 64 2] d by (simp add: add.commute)
  with a(3) y show ?thesis by simp
qed

lemma split127: "(m :: nat) < 64 \<Longrightarrow> q * 64 + m = 127 \<Longrightarrow> q = 1 \<and> m = 63"
  by arith

lemma value_127:
  assumes "192 \<le> unat b1" "unat b1 < 224" "is_cont b2"
    and "unat b1 mod 32 * 64 + unat b2 mod 64 = 127"
  shows "b1 = 0xC1 \<and> b2 = 0xBF"
proof -
  have "unat b2 mod 64 < 64" by simp
  from split127 [OF this assms(4)] have q: "unat b1 mod 32 = 1" "unat b2 mod 64 = 63" by simp_all
  from assms(3) have c: "128 \<le> unat b2" "unat b2 < 192" by (simp_all add: is_cont_def)
  have u1: "unat b1 = 193" using assms(1,2) q(1) by (rule mod32_193)
  have u2: "unat b2 = 191" using c q(2) by (rule mod64_191)
  have "b1 = of_nat (unat b1)" "b2 = of_nat (unat b2)" by simp_all
  then show ?thesis unfolding u1 u2 by simp
qed

lemma two_byte_bound:
  assumes "\<not> (bs ! 0 = (0xC1 :: byte) \<and> bs ! 1 = 0xBF)"
    and "192 \<le> unat (bs ! 0)" "unat (bs ! 0) < 224" "is_cont (bs ! 1)"
  shows "(unat (bs ! 0) mod 32 * 64 + unat (bs ! 1) mod 64 \<le> 127)
        = (unat (bs ! 0) mod 32 * 64 + unat (bs ! 1) mod 64 < 127)"
proof -
  have "unat (bs ! 0) mod 32 * 64 + unat (bs ! 1) mod 64 \<noteq> 127"
    using value_127 [OF assms(2,3,4)] assms(1) by blast
  then show ?thesis by (simp only: le_less) blast
qed

lemma qwin_spec_sequence_at:
  "spec_sequence_at False bs = qwin (length bs) (bs ! 0) (bs ! 1) (bs ! 2) (bs ! 3)"
  unfolding spec_sequence_at_def spec_lead_byte_nat qwin_nat
  by (simp add: spec_continuation_bytes_simps not_less not_le)

lemma vwin_spec_sequence_at:
  assumes "\<not> (1 < length bs \<and> bs ! 0 = 0xC1 \<and> bs ! 1 = 0xBF)"
  shows "spec_sequence_at True bs = vwin (length bs) (bs ! 0) (bs ! 1) (bs ! 2) (bs ! 3)"
proof (cases "192 \<le> unat (bs ! 0) \<and> unat (bs ! 0) < 224 \<and> 1 < length bs \<and> is_cont (bs ! 1)")
  case True
  with assms have "\<not> (bs ! 0 = 0xC1 \<and> bs ! 1 = 0xBF)" by simp
  from two_byte_bound [OF this] True
  have tb: "(unat (bs ! 0) mod 32 * 64 + unat (bs ! 1) mod 64 \<le> 127)
        = (unat (bs ! 0) mod 32 * 64 + unat (bs ! 1) mod 64 < 127)" by simp
  show ?thesis
    unfolding spec_sequence_at_def spec_lead_byte_nat vwin_nat
    using True tb
    by (simp add: spec_continuation_bytes_simps spec_assembled_simps spec_overlong_simps)
next
  case False
  then show ?thesis
    unfolding spec_sequence_at_def spec_lead_byte_nat vwin_nat
    by (auto simp add: spec_continuation_bytes_simps spec_assembled_simps spec_overlong_simps)
qed

lemma qstep_spec_sequence_at: "i < length r \<Longrightarrow> spec_sequence_at False (drop i r) = qstep r i"
  by (simp add: qwin_spec_sequence_at qstep_def)

lemma vstep_spec_sequence_at:
  assumes "i < length r" and "\<not> (i + 1 < length r \<and> r ! i = 0xC1 \<and> r ! (i + 1) = 0xBF)"
  shows "spec_sequence_at True (drop i r) = vstep r i"
proof -
  from assms have "\<not> (1 < length (drop i r) \<and> drop i r ! 0 = 0xC1 \<and> drop i r ! 1 = 0xBF)"
    by (simp add: less_diff_conv add.commute)
  from vwin_spec_sequence_at [OF this] assms(1) show ?thesis by (simp add: vstep_def)
qed

lemma spec_per_position_step:
  "spec_per_position full r i cnt =
    (if i < length r then
       (case spec_sequence_at full (drop i r) of
          Inl e \<Rightarrow> \<lparr>error = e, range = to_utf8 r i, codepoint_count = cnt\<rparr>
        | Inr n \<Rightarrow> spec_per_position full r (i + n) (cnt + 1))
     else \<lparr>error = success, range = to_utf8 r i, codepoint_count = cnt\<rparr>)"
  by (rule spec_per_position.simps)

lemma quick_loop_per_position:
  "validate_quick_loop r i c = spec_per_position False r i c"
proof (induction "length r - i" arbitrary: i c rule: less_induct)
  case less
  show ?case
  proof (cases "i < length r")
    case False
    then show ?thesis by (subst spec_per_position_step) (simp add: qloop_end)
  next
    case True
    show ?thesis
    proof (cases "qstep r i")
      case (Inl e)
      with True show ?thesis
        by (subst spec_per_position_step) (simp add: qstep_spec_sequence_at qloop_fail)
    next
      case (Inr n)
      with True qstep_Inr [of r i n] have "length r - (i + n) < length r - i" by arith
      from less [OF this] Inr True show ?thesis
        by (subst spec_per_position_step) (simp add: qstep_spec_sequence_at qloop_next)
    qed
  qed
qed

lemma loop_per_position:
  assumes "\<forall>k. k + 1 < length r \<longrightarrow> \<not> (r ! k = 0xC1 \<and> r ! (k + 1) = 0xBF)"
  shows "validate_loop r i c = spec_per_position True r i c"
proof (induction "length r - i" arbitrary: i c rule: less_induct)
  case less
  show ?case
  proof (cases "i < length r")
    case False
    then show ?thesis by (subst spec_per_position_step) (simp add: vloop_end)
  next
    case True
    from assms have "\<not> (i + 1 < length r \<and> r ! i = 0xC1 \<and> r ! (i + 1) = 0xBF)" by blast
    with True have s: "spec_sequence_at True (drop i r) = vstep r i"
      by (rule vstep_spec_sequence_at)
    show ?thesis
    proof (cases "vstep r i")
      case (Inl e)
      with True s show ?thesis
        by (subst spec_per_position_step) (simp add: vloop_fail)
    next
      case (Inr n)
      with True vstep_Inr [of r i n] have "length r - (i + n) < length r - i" by arith
      from less [OF this] Inr True s show ?thesis
        by (subst spec_per_position_step) (simp add: vloop_next)
    qed
  qed
qed

lemma validate_quick_per_position: "validate_quick r = spec_per_position False r 0 0"
  by (simp add: validate_quick_def quick_loop_per_position)

lemma validate_per_position:
  "\<forall>k. k + 1 < length r \<longrightarrow> \<not> (r ! k = 0xC1 \<and> r ! (k + 1) = 0xBF) \<Longrightarrow>
   validate r = spec_per_position True r 0 0"
  by (simp add: validate_def loop_per_position)

lemma spec_per_position_C1_BF_FF:
  "spec_per_position True [0xC1, 0xBF, 0xFF] 0 0 =
     \<lparr>error = overlong_enocoding, range = to_utf8 [0xC1, 0xBF, 0xFF] 0, codepoint_count = 0\<rparr>"
  by code_simp

text \<open>
  Claim C3. On a failure the prefix range ends at the offset of the first invalid byte,
  and \<open>codepoint_count\<close> counts the codepoints decoded before that offset. In the bytes
  \<open>C1 BF FF\<close> the first two bytes are a two-byte sequence that decodes to \<open>0x7F\<close>, an
  overlong encoding, so the first invalid byte is at offset 0 and no codepoint precedes
  it (\<open>spec_per_position_C1_BF_FF\<close>). The two-byte branch tests \<open>codepoint < 0x7F\<close>, as
  under claim C2: \<open>validate\<close> steps over \<open>C1 BF\<close>, counts it, and fails at the byte \<open>FF\<close>
  with \<open>invalid_byte\<close>, the prefix ending at offset 2 and \<open>codepoint_count\<close> 1.
\<close>

theorem failure_reported_past_overlong_7F:
  "validate [0xC1, 0xBF, 0xFF] =
     \<lparr>error = invalid_byte, range = to_utf8 [0xC1, 0xBF, 0xFF] 2, codepoint_count = 1\<rparr>"
  by code_simp

subsection \<open>The quick validator against the full one\<close>

lemma quick_loop_never_semantic:
  "error (validate_quick_loop r i c) \<noteq> overlong_enocoding \<and>
   error (validate_quick_loop r i c) \<noteq> invalid_codepoint"
proof (induction "length r - i" arbitrary: i c rule: less_induct)
  case less
  show ?case
  proof (cases "i < length r")
    case False
    then show ?thesis by (subst (1 2) validate_quick_loop_step) simp
  next
    case True
    show ?thesis
    proof (cases "qstep r i")
      case (Inl e)
      with True qstep_not_semantic [of r i] show ?thesis
        by (subst (1 2) validate_quick_loop_step) auto
    next
      case (Inr n)
      with True qstep_Inr [of r i n] have "length r - (i + n) < length r - i" by arith
      from less [OF this] Inr True show ?thesis
        by (subst (1 2) validate_quick_loop_step) simp
    qed
  qed
qed

lemma quick_loop_agrees:
  "error (validate_loop r i c) \<noteq> overlong_enocoding \<Longrightarrow>
   error (validate_loop r i c) \<noteq> invalid_codepoint \<Longrightarrow>
   validate_quick_loop r i c = validate_loop r i c"
proof (induction "length r - i" arbitrary: i c rule: less_induct)
  case less
  show ?case
  proof (cases "i < length r")
    case False
    then show ?thesis
      by (subst validate_quick_loop_step, subst validate_loop_step) simp
  next
    case True
    show ?thesis
    proof (cases "vstep r i")
      case (Inl e)
      with True less.prems have "e \<noteq> overlong_enocoding" "e \<noteq> invalid_codepoint"
        by (subst (asm) (1 2) validate_loop_step, simp)+
      with Inl have "qstep r i = Inl e" by (rule vstep_qstep_Inl)
      with Inl True show ?thesis
        by (subst validate_quick_loop_step, subst validate_loop_step) simp
    next
      case (Inr n)
      then have q: "qstep r i = Inr n" by (rule vstep_qstep_Inr)
      from True Inr vstep_Inr [of r i n] have m: "length r - (i + n) < length r - i" by arith
      from less.prems True Inr
      have "error (validate_loop r (i + n) (c + 1)) \<noteq> overlong_enocoding"
           "error (validate_loop r (i + n) (c + 1)) \<noteq> invalid_codepoint"
        by (subst (asm) (1 2) validate_loop_step, simp)+
      from less.hyps [OF m this] q Inr True show ?thesis
        by (subst validate_quick_loop_step, subst validate_loop_step) simp
    qed
  qed
qed

text \<open>
  Claim C4. \<open>validate_quick\<close> never returns \<open>overlong_enocoding\<close> or
  \<open>invalid_codepoint\<close>; whenever the result of \<open>validate\<close> is neither of the two,
  \<open>validate_quick\<close> returns the same result (error kind, prefix range and codepoint
  count). On the bytes \<open>C0 80\<close> \<open>validate\<close> returns \<open>overlong_enocoding\<close> at offset 0
  with no codepoint, and \<open>validate_quick\<close> returns \<open>success\<close> with one codepoint.
\<close>

theorem quick_agrees_with_full:
  "error (validate_quick r) \<noteq> overlong_enocoding \<and>
   error (validate_quick r) \<noteq> invalid_codepoint \<and>
   (error (validate r) \<noteq> overlong_enocoding \<and> error (validate r) \<noteq> invalid_codepoint
      \<longrightarrow> validate_quick r = validate r) \<and>
   validate [0xC0, 0x80]
     = \<lparr>error = overlong_enocoding, range = to_utf8 [0xC0, 0x80] 0, codepoint_count = 0\<rparr> \<and>
   validate_quick [0xC0, 0x80]
     = \<lparr>error = success, range = to_utf8 [0xC0, 0x80] 2, codepoint_count = 1\<rparr>"
proof -
  have a: "validate [0xC0, 0x80]
     = \<lparr>error = overlong_enocoding, range = to_utf8 [0xC0, 0x80] 0, codepoint_count = 0\<rparr>"
    by code_simp
  have b: "validate_quick [0xC0, 0x80]
     = \<lparr>error = success, range = to_utf8 [0xC0, 0x80] 2, codepoint_count = 1\<rparr>"
    by code_simp
  show ?thesis
    unfolding validate_def validate_quick_def
    using quick_loop_never_semantic [of r 0 0] quick_loop_agrees [of r 0 0]
      a [unfolded validate_def] b [unfolded validate_quick_def]
    by blast
qed

theorem quick_agrees_with_full_witness:
  "error (validate [0x41, 0x80]) \<noteq> overlong_enocoding \<and>
   error (validate [0x41, 0x80]) \<noteq> invalid_codepoint \<and>
   validate_quick [0x41, 0x80] = validate [0x41, 0x80] \<and>
   validate [0x41, 0x80]
     = \<lparr>error = unexpected_continuation_byte, range = to_utf8 [0x41, 0x80] 1,
        codepoint_count = 1\<rparr>"
proof -
  have v: "validate [0x41, 0x80]
     = \<lparr>error = unexpected_continuation_byte, range = to_utf8 [0x41, 0x80] 1,
        codepoint_count = 1\<rparr>"
    by code_simp
  then have h: "error (validate [0x41, 0x80]) \<noteq> overlong_enocoding"
       "error (validate [0x41, 0x80]) \<noteq> invalid_codepoint"
    by simp_all
  from quick_agrees_with_full [of "[0x41, 0x80]"] h v show ?thesis by blast
qed

subsection \<open>Decoding what the validator accepted\<close>

text \<open>
  Claim C5, as stated: on every range that \<open>validate\<close> accepts, the codepoints the decoder
  produces are the Unicode scalar values encoded in the input. \<open>validate\<close> makes no check
  for surrogates: it accepts the bytes \<open>ED A0 80\<close> with one codepoint, and the decoder
  produces \<open>0xD800\<close> for them, which is not a Unicode scalar value.
\<close>

theorem surrogate_decoded:
  "error (validate [0xED, 0xA0, 0x80]) = success \<and>
   codepoint_count (validate [0xED, 0xA0, 0x80]) = 1 \<and>
   codepoints (range (validate [0xED, 0xA0, 0x80])) = Inr [0xD800] \<and>
   \<not> unicode_scalar_value (unat (0xD800 :: codepoint_t))"
proof -
  have v: "validate [0xED, 0xA0, 0x80]
     = \<lparr>error = success, range = to_utf8 [0xED, 0xA0, 0x80] 3, codepoint_count = 1\<rparr>"
    by code_simp
  have c: "codepoints (to_utf8 [0xED, 0xA0, 0x80] 3) = Inr [0xD800]"
    by code_simp
  have n: "\<not> unicode_scalar_value (unat (0xD800 :: codepoint_t))"
    by (simp add: unicode_scalar_value_def)
  show ?thesis unfolding v using c n by simp
qed

text \<open>
  Claim C5, amended. For every range on which \<open>validate\<close> returns \<open>success\<close> with codepoint
  count \<open>n\<close>, the loop over the prefix range, which reads the current codepoint and advances
  by the length the lead byte implies until the iterator equals \<open>end()\<close>, reads no byte
  outside the range and stops after exactly \<open>n\<close> steps, and each of the \<open>n\<close> codepoints it
  produces is at most \<open>0x10FFFF\<close>. When the range is the concatenation of the
  minimal-length encodings of code points up to \<open>0x10FFFF\<close> (Unicode scalar values and
  surrogates alike), the codepoints produced are exactly those code points, in order.
\<close>

theorem decode_after_validate:
  assumes "error (validate r) = success"
  shows "(\<exists>cps. codepoints (range (validate r)) = Inr cps \<and>
                length cps = codepoint_count (validate r) \<and>
                (\<forall>cp \<in> set cps. cp \<le> 0x10FFFF)) \<and>
         (\<forall>us. (\<forall>u \<in> set us. u \<le> 0x10FFFF) \<and> r = utf8_encode_all us \<longrightarrow>
                codepoints (range (validate r)) = Inr (map of_nat us))"
proof -
  from assms have s: "error (validate_loop r 0 0) = success" by (simp add: validate_def)
  from iterate_valid [OF s, of "[]"] obtain cps where
    cps: "iterate \<lparr>mem = r, str = 0\<rparr> \<lparr>mem = r, str = length r\<rparr> [] = Inr cps"
         "length cps = codepoint_count (validate_loop r 0 0)"
         "\<forall>cp \<in> set cps. cp \<le> 0x10FFFF"
         "range (validate_loop r 0 0) = to_utf8 r (length r)"
    by auto
  have c: "codepoints (range (validate r))
      = iterate \<lparr>mem = r, str = 0\<rparr> \<lparr>mem = r, str = length r\<rparr> []"
    by (simp add: codepoints_def validate_def cps(4) begin_it_def end_it_def to_utf8_def)
  have n: "codepoint_count (validate r) = codepoint_count (validate_loop r 0 0)"
    by (simp add: validate_def)
  have one: "\<exists>cps. codepoints (range (validate r)) = Inr cps \<and>
                length cps = codepoint_count (validate r) \<and>
                (\<forall>cp \<in> set cps. cp \<le> 0x10FFFF)"
    using cps(1,2,3) unfolding c n by blast
  have two: "codepoints (range (validate r)) = Inr (map of_nat us)"
    if us: "\<forall>u \<in> set us. u \<le> 0x10FFFF" and r: "r = utf8_encode_all us" for us
  proof -
    from us have "\<forall>cp \<in> set us. cp \<le> 1114111" by simp
    from iterate_encoded [OF this, of "[]" "[]"] c [unfolded r] show ?thesis
      unfolding r by simp
  qed
  from one two show ?thesis by blast
qed

theorem decode_after_validate_witness:
  "error (validate [0x41, 0xC3, 0xA9, 0xED, 0xA0, 0x80, 0xF0, 0x9F, 0x98, 0x80]) = success \<and>
   (0x41 :: nat) \<le> 0x10FFFF \<and> (0xE9 :: nat) \<le> 0x10FFFF \<and>
   (0xD800 :: nat) \<le> 0x10FFFF \<and> (0x1F600 :: nat) \<le> 0x10FFFF \<and>
   [0x41, 0xC3, 0xA9, 0xED, 0xA0, 0x80, 0xF0, 0x9F, 0x98, 0x80]
      = utf8_encode_all [0x41, 0xE9, 0xD800, 0x1F600] \<and>
   codepoint_count (validate [0x41, 0xC3, 0xA9, 0xED, 0xA0, 0x80, 0xF0, 0x9F, 0x98, 0x80]) = 4 \<and>
   codepoints (range (validate [0x41, 0xC3, 0xA9, 0xED, 0xA0, 0x80, 0xF0, 0x9F, 0x98, 0x80]))
      = Inr [0x41, 0xE9, 0xD800, 0x1F600]"
proof -
  let ?r = "[0x41, 0xC3, 0xA9, 0xED, 0xA0, 0x80, 0xF0, 0x9F, 0x98, 0x80] :: byte list"
  have v: "validate ?r = \<lparr>error = success, range = to_utf8 ?r 10, codepoint_count = 4\<rparr>"
    by code_simp
  then have h: "error (validate ?r) = success" by simp
  have u: "\<forall>u \<in> set [0x41, 0xE9, 0xD800, 0x1F600 :: nat]. u \<le> 0x10FFFF"
    by simp
  have e: "?r = utf8_encode_all [0x41, 0xE9, 0xD800, 0x1F600]"
    by (simp add: utf8_encode_all_def utf8_encode_def)
  from decode_after_validate [OF h] u e
  have "codepoints (range (validate ?r)) = Inr (map of_nat [0x41, 0xE9, 0xD800, 0x1F600])"
    by blast
  with h u e v show ?thesis by simp
qed

section \<open>Properties of the string pool\<close>

subsection \<open>Reading views, pages and the index\<close>

lemma extends_refl: "extends p p"
  by (simp add: extends_def)

lemma extends_trans: "extends p q \<Longrightarrow> extends q r \<Longrightarrow> extends p r"
  unfolding extends_def
  apply (intro conjI allI impI)
    apply simp
   apply (metis (no_types, lifting) le_trans less_le_trans)
   defer
   apply blast
  apply (elim conjE)
  subgoal for j off
    apply (drule spec [of _ j], drule mp, assumption)
    apply (drule spec [of _ j], drule mp, simp)
    apply (elim conjE)
    apply (drule spec [of _ off], drule mp, assumption)
    apply (drule spec [of _ off], drule mp)
     apply simp
    apply simp
    done
  done

lemma view_bytes_caller:
  "view_bytes env pgs \<lparr>sv_data = caller_ptr a, sv_size = n\<rparr> = Some (caller_bytes env a n)"
proof -
  have "map (\<lambda>i. caller_mem env (a + i)) [0..<n] = map (caller_mem env) [a..<a + n]"
    by (rule nth_equalityI) simp_all
  then show ?thesis by (simp add: view_bytes_def caller_bytes_def)
qed

lemma length_caller_bytes: "length (caller_bytes env a n) = n"
  by (simp add: caller_bytes_def)

lemma view_bytes_length: "view_bytes env pgs v = Some bs \<Longrightarrow> length bs = sv_size v"
  by (auto simp: view_bytes_def split: if_splits)

lemma view_bytes_page:
  "k < length pgs \<Longrightarrow> off + n \<le> page_size \<Longrightarrow>
   view_bytes env pgs \<lparr>sv_data = page_ptr k off, sv_size = n\<rparr>
     = Some (map (\<lambda>i. buffer (pgs ! k) (off + i)) [0..<n])"
  by (simp add: view_bytes_def)

lemma entry_bytes_stable:
  assumes "entry_ok (pages p) e" and "extends p q"
  shows "view_bytes env (pages q) (view e) = view_bytes env (pages p) (view e)"
proof (cases "sv_data (view e)")
  case (caller_ptr a)
  then have "view e = \<lparr>sv_data = caller_ptr a, sv_size = sv_size (view e)\<rparr>" by simp
  then show ?thesis using view_bytes_caller by metis
next
  case (page_ptr k off)
  let ?n = "sv_size (view e)"
  from assms(1) page_ptr have k: "k < length (pages p)"
    and u: "off + ?n + 1 \<le> page_size - remaining (pages p ! k)" by simp_all
  have v: "view e = \<lparr>sv_data = page_ptr k off, sv_size = ?n\<rparr>" using page_ptr by simp
  from assms(2) k have kq: "k < length (pages q)" by (simp add: extends_def)
  from u have b: "off + ?n \<le> page_size" by simp
  have same: "buffer (pages q ! k) (off + i) = buffer (pages p ! k) (off + i)" if "i < ?n" for i
  proof -
    from that u have "off + i < page_size - remaining (pages p ! k)" by simp
    with assms(2) k show ?thesis by (simp add: extends_def)
  qed
  have "view_bytes env (pages q) \<lparr>sv_data = page_ptr k off, sv_size = ?n\<rparr>
      = view_bytes env (pages p) \<lparr>sv_data = page_ptr k off, sv_size = ?n\<rparr>"
    unfolding view_bytes_page [OF kq b] view_bytes_page [OF k b]
    using same by simp
  then show ?thesis using v by simp
qed

lemma entry_ok_stable:
  assumes "entry_ok (pages p) e" and "extends p q"
  shows "entry_ok (pages q) e"
proof (cases "sv_data (view e)")
  case (caller_ptr a)
  then show ?thesis by simp
next
  case (page_ptr k off)
  with assms(1) have k: "k < length (pages p)"
    and u: "off + sv_size (view e) + 1 \<le> page_size - remaining (pages p ! k)" by simp_all
  from assms(2) k have "k < length (pages q)" "remaining (pages q ! k) \<le> remaining (pages p ! k)"
    by (simp_all add: extends_def)
  with u page_ptr show ?thesis by simp
qed

lemma ensure_page_nonempty: "ensure_page env pgs sz \<noteq> []"
  by (simp add: ensure_page_def)

lemma ensure_page_length: "length pgs \<le> length (ensure_page env pgs sz)"
  by (simp add: ensure_page_def)

lemma ensure_page_old:
  "j < length pgs \<Longrightarrow> ensure_page env pgs sz ! j = pgs ! j"
  by (simp add: ensure_page_def nth_append)

lemma ensure_page_remaining:
  assumes "list_all (\<lambda>pg. remaining pg \<le> page_size) pgs"
  shows "remaining (last (ensure_page env pgs sz)) \<le> page_size"
proof (cases "pgs = [] \<or> \<not> can_hold (last pgs) sz")
  case True
  then show ?thesis by (simp add: ensure_page_def new_page_def)
next
  case False
  then have "last pgs \<in> set pgs" by simp
  with assms have "remaining (last pgs) \<le> page_size" by (simp add: list_all_iff)
  with False show ?thesis by (simp add: ensure_page_def)
qed

lemma ensure_page_room:
  assumes "sz + 1 \<le> page_size"
  shows "sz + 1 \<le> remaining (last (ensure_page env pgs sz))"
  using assms by (auto simp: ensure_page_def new_page_def can_hold_def)

lemma ensure_page_can_hold:
  assumes "sz + 1 < page_size"
  shows "can_hold (last (ensure_page env pgs sz)) sz"
  using assms by (auto simp: ensure_page_def new_page_def can_hold_def)

lemma ensure_page_last_old:
  assumes "length (ensure_page env pgs sz) = length pgs"
  shows "pgs \<noteq> [] \<and> last (ensure_page env pgs sz) = last pgs"
  using assms by (auto simp: ensure_page_def split: if_splits)

lemma ensure_page_last_new:
  assumes "length (ensure_page env pgs sz) \<noteq> length pgs"
  shows "length (ensure_page env pgs sz) = Suc (length pgs) \<and>
         last (ensure_page env pgs sz) = new_page env (length pgs)"
  using assms by (auto simp: ensure_page_def split: if_splits)

lemma push_back_Some:
  assumes "remaining pg \<le> page_size" and "length bs + 1 \<le> remaining pg"
  shows "push_back this bs pg =
     Some (page_ptr this (page_size - remaining pg),
           \<lparr>buffer = (write_bytes (buffer pg) (page_size - remaining pg) bs)
                        (page_size - remaining pg + length bs := 0),
            remaining = remaining pg - (length bs + 1)\<rparr>)"
  using assms by (simp add: push_back_def Let_def)

lemma write_bytes_below: "i < at \<Longrightarrow> write_bytes buf at bs i = buf i"
  by (simp add: write_bytes_def)

lemma write_bytes_at: "i < length bs \<Longrightarrow> write_bytes buf at bs (at + i) = bs ! i"
  by (simp add: write_bytes_def)

lemma write_bytes_outside:
  "write_bytes buf at bs i \<noteq> buf i \<Longrightarrow> at \<le> i \<and> i < at + length bs"
  by (auto simp: write_bytes_def split: if_splits)

lemma get_string_key_hit:
  "find_key env p k = Some it \<Longrightarrow>
   get_string_key env p k = Some (\<lparr>data = sv_data (view it), size_fs = sv_size (view k)\<rparr>, p)"
  by (simp add: get_string_key_def)

lemma get_string_key_miss:
  assumes inv: "pool_inv p"
    and v: "view k = \<lparr>sv_data = caller_ptr a, sv_size = n\<rparr>"
    and miss: "find_key env p k = None"
    and fit: "n + 1 \<le> page_size"
  shows "get_string_key env p k =
     Some (\<lparr>data = page_ptr (length (ensure_page env (pages p) n) - 1)
                     (page_size - remaining (last (ensure_page env (pages p) n))),
            size_fs = n\<rparr>,
           copied env p k (caller_bytes env a n))"
proof -
  let ?pgs = "ensure_page env (pages p) n"
  from inv have r: "remaining (last ?pgs) \<le> page_size"
    by (intro ensure_page_remaining) (simp add: pool_inv_def)
  have f: "length (caller_bytes env a n) + 1 \<le> remaining (last ?pgs)"
    using ensure_page_room [OF fit, of env "pages p"] by (simp add: length_caller_bytes)
  show ?thesis
    unfolding get_string_key_def Let_def miss v
    by (simp add: view_bytes_caller push_back_Some [OF r f] copied_def Let_def v
        length_caller_bytes)
qed

lemma copied_pages_length:
  "length (pages (copied env p k bs)) = length (ensure_page env (pages p) (sv_size (view k)))"
  by (simp add: copied_def Let_def)

lemma copied_old_page:
  assumes "j < length (pages p)" and "j \<noteq> length (ensure_page env (pages p) (sv_size (view k))) - 1"
  shows "pages (copied env p k bs) ! j = pages p ! j"
  using assms by (simp add: copied_def Let_def ensure_page_old)

lemma copied_cur_page:
  "pages (copied env p k bs) ! (length (ensure_page env (pages p) (sv_size (view k))) - 1) =
     \<lparr>buffer = (write_bytes (buffer (last (ensure_page env (pages p) (sv_size (view k)))))
                   (page_size - remaining (last (ensure_page env (pages p) (sv_size (view k))))) bs)
                 (page_size - remaining (last (ensure_page env (pages p) (sv_size (view k))))
                    + length bs := 0),
      remaining = remaining (last (ensure_page env (pages p) (sv_size (view k))))
                    - (length bs + 1)\<rparr>"
  using ensure_page_nonempty [of env "pages p" "sv_size (view k)"]
  by (simp add: copied_def Let_def)

lemma copied_extends:
  assumes inv: "pool_inv p"
  shows "extends p (copied env p k bs)"
proof -
  let ?sz = "sv_size (view k)"
  let ?pgs = "ensure_page env (pages p) ?sz"
  let ?q = "copied env p k bs"
  have len: "length (pages p) \<le> length (pages ?q)"
    by (simp add: copied_pages_length ensure_page_length)
  have ents: "set (map_set p) \<subseteq> set (map_set ?q)"
    by (auto simp: copied_def Let_def)
  have pg: "remaining (pages ?q ! j) \<le> remaining (pages p ! j) \<and>
        (\<forall>off < page_size - remaining (pages p ! j).
           buffer (pages ?q ! j) off = buffer (pages p ! j) off)"
    if j: "j < length (pages p)" for j
  proof (cases "j = length ?pgs - 1")
    case False
    with j show ?thesis by (simp add: copied_old_page)
  next
    case True
    with j ensure_page_length [of "pages p" env ?sz] have "length ?pgs = length (pages p)"
      using ensure_page_last_new [of env "pages p" ?sz] by (cases "length ?pgs = length (pages p)") auto
    then have l: "pages p \<noteq> []" "last ?pgs = last (pages p)"
      using ensure_page_last_old [of env "pages p" ?sz] by simp_all
    with True \<open>length ?pgs = length (pages p)\<close> have pj: "pages p ! j = last (pages p)"
      by (simp add: last_conv_nth)
    define at where "at = page_size - remaining (last (pages p))"
    have "pages ?q ! j = \<lparr>buffer = (write_bytes (buffer (last ?pgs))
                   (page_size - remaining (last ?pgs)) bs)
                 (page_size - remaining (last ?pgs) + length bs := 0),
      remaining = remaining (last ?pgs) - (length bs + 1)\<rparr>"
      unfolding True by (rule copied_cur_page)
    then have q: "pages ?q ! j = \<lparr>buffer = (write_bytes (buffer (last (pages p))) at bs)
                 (at + length bs := 0),
      remaining = remaining (last (pages p)) - (length bs + 1)\<rparr>"
      unfolding l(2) at_def .
    have "((write_bytes (buffer (last (pages p))) at bs)(at + length bs := 0)) off
            = buffer (last (pages p)) off" if "off < at" for off
      using that by (simp add: write_bytes_below)
    then show ?thesis
      unfolding pj q at_def [symmetric] by simp
  qed
  from len ents pg show ?thesis unfolding extends_def by blast
qed

lemma key_eq_caller:
  "view k = \<lparr>sv_data = caller_ptr a, sv_size = n\<rparr> \<Longrightarrow>
   key_eq env pgs e k = (view_bytes env pgs (view e) = Some (caller_bytes env a n))"
  by (auto simp: key_eq_def view_bytes_caller split: option.splits)

lemma find_key_caller:
  "view k = \<lparr>sv_data = caller_ptr a, sv_size = n\<rparr> \<Longrightarrow>
   find_key env p k =
     find (\<lambda>e. hash e = hash k \<and> view_bytes env (pages p) (view e) = Some (caller_bytes env a n))
       (map_set p)"
  by (simp add: find_key_def key_eq_caller)

lemma find_key_Some:
  assumes "view k = \<lparr>sv_data = caller_ptr a, sv_size = n\<rparr>" and "find_key env p k = Some it"
  shows "it \<in> set (map_set p) \<and> hash it = hash k \<and>
         view_bytes env (pages p) (view it) = Some (caller_bytes env a n) \<and>
         sv_size (view it) = n"
proof -
  from assms(2) have "it \<in> set (map_set p) \<and> hash it = hash k \<and>
         view_bytes env (pages p) (view it) = Some (caller_bytes env a n)"
    unfolding find_key_caller [OF assms(1)] by (auto simp: find_Some_iff)
  moreover from this have "sv_size (view it) = n"
    using view_bytes_length [of env "pages p" "view it" "caller_bytes env a n"]
    by (simp add: length_caller_bytes)
  ultimately show ?thesis by simp
qed

lemma find_stable:
  assumes inv: "pool_inv p" and ext: "extends p q"
  shows "find (\<lambda>e. hash e = h \<and> view_bytes env (pages q) (view e) = Some bs) (map_set p)
       = find (\<lambda>e. hash e = h \<and> view_bytes env (pages p) (view e) = Some bs) (map_set p)"
proof (rule find_cong [OF refl])
  fix e assume "e \<in> set (map_set p)"
  with inv have "entry_ok (pages p) e" by (simp add: pool_inv_def list_all_iff)
  from entry_bytes_stable [OF this ext]
  show "(hash e = h \<and> view_bytes env (pages q) (view e) = Some bs)
      = (hash e = h \<and> view_bytes env (pages p) (view e) = Some bs)" by simp
qed

lemma find_key_same_entries:
  assumes "pool_inv p" and "extends p q" and "map_set q = map_set p"
    and "view k = \<lparr>sv_data = caller_ptr a, sv_size = n\<rparr>"
  shows "find_key env q k = find_key env p k"
  unfolding find_key_caller [OF assms(4)] assms(3)
  using assms(1,2) by (rule find_stable)

lemma find_key_new_entry:
  assumes "pool_inv p" and "extends p q" and "map_set q = e # map_set p"
    and "view k = \<lparr>sv_data = caller_ptr a, sv_size = n\<rparr>"
  shows "find_key env q k =
     (if hash e = hash k \<and> view_bytes env (pages q) (view e) = Some (caller_bytes env a n)
      then Some e else find_key env p k)"
  unfolding find_key_caller [OF assms(4)] assms(3)
  using find_stable [OF assms(1,2)] by simp

lemma copied_spec:
  fixes env :: environment and p :: string_pool and k :: string_key and bs :: "byte list"
    and n a :: nat
  assumes inv: "pool_inv p"
    and v: "view k = \<lparr>sv_data = caller_ptr a, sv_size = n\<rparr>"
    and fit: "n + 1 \<le> page_size"
    and bs: "length bs = n"
  defines "q \<equiv> copied env p k bs"
    and "no \<equiv> length (ensure_page env (pages p) n) - 1"
    and "at \<equiv> page_size - remaining (last (ensure_page env (pages p) n))"
  shows "no < length (pages q)" and "at + n + 1 \<le> page_size - remaining (pages q ! no)"
    and "view_bytes env (pages q) \<lparr>sv_data = page_ptr no at, sv_size = n\<rparr> = Some bs"
    and "buffer (pages q ! no) (at + n) = 0"
    and "remaining (pages q ! no) \<le> page_size"
proof -
  let ?pgs = "ensure_page env (pages p) n"
  let ?cur = "last ?pgs"
  from inv have r: "remaining ?cur \<le> page_size"
    by (intro ensure_page_remaining) (simp add: pool_inv_def)
  have f: "n + 1 \<le> remaining ?cur" using fit by (rule ensure_page_room)
  have ne: "?pgs \<noteq> []" by (rule ensure_page_nonempty)
  then show t: "no < length (pages q)"
    by (simp add: q_def no_def copied_pages_length v)
  have pg: "pages q ! no = \<lparr>buffer = (write_bytes (buffer ?cur) at bs)(at + n := 0),
      remaining = remaining ?cur - (n + 1)\<rparr>"
    using copied_cur_page [of env p k bs] by (simp add: q_def no_def at_def v bs)
  from r f show u: "at + n + 1 \<le> page_size - remaining (pages q ! no)"
    unfolding pg at_def by simp
  show "buffer (pages q ! no) (at + n) = 0" unfolding pg by simp
  show "remaining (pages q ! no) \<le> page_size" unfolding pg using r by simp
  from u have b: "at + n \<le> page_size" by simp
  have "map (\<lambda>i. buffer (pages q ! no) (at + i)) [0..<n] = bs"
    by (rule nth_equalityI) (simp_all add: bs pg write_bytes_at)
  then show "view_bytes env (pages q) \<lparr>sv_data = page_ptr no at, sv_size = n\<rparr> = Some bs"
    unfolding view_bytes_page [OF t b] by simp
qed

lemma copied_inv:
  assumes inv: "pool_inv p"
    and v: "view k = \<lparr>sv_data = caller_ptr a, sv_size = n\<rparr>"
    and fit: "n + 1 \<le> page_size"
    and bs: "length bs = n"
  shows "pool_inv (copied env p k bs)"
proof -
  let ?q = "copied env p k bs"
  let ?pgs = "ensure_page env (pages p) n"
  let ?no = "length ?pgs - 1"
  let ?at = "page_size - remaining (last ?pgs)"
  note sp = copied_spec [of p k a n bs env, OF inv v fit bs]
  have ext: "extends p ?q" using inv by (rule copied_extends)
  have len: "length (pages ?q) = length ?pgs" by (simp add: copied_pages_length v)
  have "remaining (pages ?q ! j) \<le> page_size" if j: "j < length (pages ?q)" for j
  proof (cases "j = ?no")
    case True
    then show ?thesis using sp(5) by simp
  next
    case False
    with j len have "j < length (pages p)"
      using ensure_page_last_new [of env "pages p" n] by (cases "length ?pgs = length (pages p)") auto
    with ext have "remaining (pages ?q ! j) \<le> remaining (pages p ! j)" by (simp add: extends_def)
    moreover from inv \<open>j < length (pages p)\<close> have "remaining (pages p ! j) \<le> page_size"
      by (simp add: pool_inv_def list_all_length)
    ultimately show ?thesis by simp
  qed
  then have one: "list_all (\<lambda>pg. remaining pg \<le> page_size) (pages ?q)"
    by (simp add: list_all_length)
  have old: "entry_ok (pages ?q) e" if "e \<in> set (map_set p)" for e
  proof -
    from inv that have "entry_ok (pages p) e" by (simp add: pool_inv_def list_all_iff)
    then show ?thesis using ext by (rule entry_ok_stable)
  qed
  have new: "entry_ok (pages ?q) \<lparr>view = \<lparr>sv_data = page_ptr ?no ?at, sv_size = n\<rparr>, hash = hash k\<rparr>"
    using sp(1,2) by simp
  have "map_set ?q = \<lparr>view = \<lparr>sv_data = page_ptr ?no ?at, sv_size = n\<rparr>, hash = hash k\<rparr> # map_set p"
    by (simp add: copied_def Let_def v)
  with old new have two: "list_all (entry_ok (pages ?q)) (map_set ?q)"
    by (simp add: list_all_iff del: entry_ok.simps)
  from one two show ?thesis by (simp add: pool_inv_def)
qed

lemma req_key_view:
  "\<exists>a n. view (req_key env r) = \<lparr>sv_data = caller_ptr a, sv_size = n\<rparr> \<and>
         content env r = caller_bytes env a n \<and>
         hash (req_key env r) = detail_hash (caller_bytes env a n) \<and>
         (r \<noteq> by_literal a n \<longrightarrow> fits r = (n + 1 \<le> page_size))"
  by (cases r) (auto simp: string_key_of_def)

lemma key_literal_key: "key (literal_key env a n) = string_key_of env a n"
  by (simp add: literal_key_def string_key_of_def)

lemma copy_path_spec:
  assumes inv: "pool_inv p"
    and v: "view k = \<lparr>sv_data = caller_ptr a, sv_size = n\<rparr>"
    and fit: "n + 1 \<le> page_size"
  shows "\<exists>h q. get_string_key env p k = Some (h, q) \<and> pool_inv q \<and> extends p q \<and>
           interned env q k (caller_bytes env a n) h \<and>
           (map_set q = map_set p \<or>
            (find_key env p k = None \<and> (\<exists>e. map_set q = e # map_set p \<and> hash e = hash k \<and>
               view_bytes env (pages q) (view e) = Some (caller_bytes env a n))))"
proof (cases "find_key env p k")
  case (Some it)
  from find_key_Some [OF v Some] have it: "hash it = hash k"
    "view_bytes env (pages p) (view it) = Some (caller_bytes env a n)" by simp_all
  have "get_string_key env p k = Some (\<lparr>data = sv_data (view it), size_fs = n\<rparr>, p)"
    using get_string_key_hit [OF Some] v by simp
  moreover have "interned env p k (caller_bytes env a n) \<lparr>data = sv_data (view it), size_fs = n\<rparr>"
    unfolding interned_def using Some it by (simp add: length_caller_bytes)
  ultimately show ?thesis using inv by (auto simp: extends_refl)
next
  case None
  let ?bs = "caller_bytes env a n"
  let ?q = "copied env p k ?bs"
  let ?no = "length (ensure_page env (pages p) n) - 1"
  let ?at = "page_size - remaining (last (ensure_page env (pages p) n))"
  let ?e = "\<lparr>view = \<lparr>sv_data = page_ptr ?no ?at, sv_size = n\<rparr>, hash = hash k\<rparr>"
  have bs: "length ?bs = n" by (rule length_caller_bytes)
  note sp = copied_spec [of p k a n ?bs env, OF inv v fit bs]
  have g: "get_string_key env p k = Some (\<lparr>data = page_ptr ?no ?at, size_fs = n\<rparr>, ?q)"
    using inv v None fit by (rule get_string_key_miss)
  have i: "pool_inv ?q" using inv v fit bs by (rule copied_inv)
  have x: "extends p ?q" using inv by (rule copied_extends)
  have m: "map_set ?q = ?e # map_set p" by (simp add: copied_def Let_def v)
  have f: "find_key env ?q k = Some ?e"
    unfolding find_key_new_entry [OF inv x m v] using sp(3) by simp
  have "interned env ?q k ?bs \<lparr>data = page_ptr ?no ?at, size_fs = n\<rparr>"
    unfolding interned_def using f sp(3) bs by simp
  with g i x m None sp(3) show ?thesis by auto
qed

lemma literal_path_spec:
  assumes inv: "pool_inv p"
  shows "\<exists>h q. get_string_literal env p (literal_key env a n) = Some (h, q) \<and>
           pool_inv q \<and> extends p q \<and> pages q = pages p \<and>
           interned env q (string_key_of env a n) (caller_bytes env a n) h \<and>
           (map_set q = map_set p \<or>
            (find_key env p (string_key_of env a n) = None \<and>
             h = \<lparr>data = caller_ptr a, size_fs = n\<rparr> \<and>
             (\<exists>e. map_set q = e # map_set p \<and> hash e = hash (string_key_of env a n) \<and>
               view_bytes env (pages q) (view e) = Some (caller_bytes env a n))))"
proof -
  let ?k = "string_key_of env a n"
  have v: "view ?k = \<lparr>sv_data = caller_ptr a, sv_size = n\<rparr>" by (simp add: string_key_of_def)
  show ?thesis
  proof (cases "find_key env p ?k")
    case (Some it)
    from find_key_Some [OF v Some] have it: "hash it = hash ?k"
      "view_bytes env (pages p) (view it) = Some (caller_bytes env a n)" by simp_all
    have "get_string_literal env p (literal_key env a n)
        = Some (\<lparr>data = sv_data (view it), size_fs = n\<rparr>, p)"
      using Some v by (simp add: get_string_literal_def key_literal_key)
    moreover have "interned env p ?k (caller_bytes env a n) \<lparr>data = sv_data (view it), size_fs = n\<rparr>"
      unfolding interned_def using Some it by (simp add: length_caller_bytes)
    ultimately show ?thesis using inv by (auto simp: extends_refl)
  next
    case None
    let ?q = "p\<lparr>map_set := ?k # map_set p\<rparr>"
    have g: "get_string_literal env p (literal_key env a n)
        = Some (\<lparr>data = caller_ptr a, size_fs = n\<rparr>, ?q)"
      using None v by (simp add: get_string_literal_def key_literal_key)
    have x: "extends p ?q" by (auto simp: extends_def)
    have i: "pool_inv ?q" using inv v by (simp add: pool_inv_def)
    have b: "view_bytes env (pages ?q) (view ?k) = Some (caller_bytes env a n)"
      using v by (simp add: view_bytes_caller)
    have m: "map_set ?q = ?k # map_set p" by simp
    have f: "find_key env ?q ?k = Some ?k"
      unfolding find_key_new_entry [OF inv x m v] using b by simp
    have "interned env ?q ?k (caller_bytes env a n) \<lparr>data = caller_ptr a, size_fs = n\<rparr>"
      unfolding interned_def using f b v by (simp add: length_caller_bytes)
    with g i x None b show ?thesis by auto
  qed
qed

lemma serve_spec:
  assumes inv: "pool_inv p" and fit: "fits r"
  shows "\<exists>h q. serve env p r = Some (h, q) \<and> pool_inv q \<and> extends p q \<and>
           interned env q (req_key env r) (content env r) h \<and>
           (map_set q = map_set p \<or>
            (find_key env p (req_key env r) = None \<and>
             (\<exists>e. map_set q = e # map_set p \<and> hash e = hash (req_key env r) \<and>
               view_bytes env (pages q) (view e) = Some (content env r))))"
proof -
  have copy: ?thesis
    if r: "serve env p r = get_string_key env p (string_key_of env a n)"
      "req_key env r = string_key_of env a n" "content env r = caller_bytes env a n"
      "n + 1 \<le> page_size" for a n
  proof -
    have v: "view (string_key_of env a n) = \<lparr>sv_data = caller_ptr a, sv_size = n\<rparr>"
      by (simp add: string_key_of_def)
    from copy_path_spec [OF inv v r(4), of env] show ?thesis
      unfolding r(1,2,3) by blast
  qed
  show ?thesis
  proof (cases r)
    case (by_key a n)
    with fit show ?thesis by (intro copy [of a n]) simp_all
  next
    case (by_view a n)
    with fit show ?thesis by (intro copy [of a n]) (simp_all add: get_string_view_def)
  next
    case (by_string a n)
    with fit show ?thesis by (intro copy [of a n]) (simp_all add: get_string_string_def)
  next
    case (by_literal a n)
    from literal_path_spec [OF inv, of env a n] show ?thesis
      unfolding by_literal by (simp del: fits.simps) blast
  qed
qed

lemma run_spec:
  assumes "pool_inv p" and "list_all fits rs"
  shows "\<exists>hs q. run env p rs = Some (hs, q) \<and> length hs = length rs \<and> pool_inv q \<and> extends p q"
  using assms
proof (induction rs arbitrary: p)
  case Nil
  then show ?case by (simp add: extends_refl)
next
  case (Cons r rs)
  from Cons.prems have f: "fits r" "list_all fits rs" by simp_all
  from serve_spec [OF Cons.prems(1) f(1), of env] obtain h p1 where
    s: "serve env p r = Some (h, p1)" "pool_inv p1" "extends p p1" by blast
  from Cons.IH [OF s(2) f(2)] obtain hs q where
    r: "run env p1 rs = Some (hs, q)" "length hs = length rs" "pool_inv q" "extends p1 q" by blast
  from s(3) r(4) have "extends p q" by (rule extends_trans)
  with s(1) r show ?case by simp
qed

lemma interned_stable:
  assumes inv: "pool_inv p" and ext: "extends p q"
    and v: "view k = \<lparr>sv_data = caller_ptr a, sv_size = n\<rparr>"
    and i: "interned env p k bs h"
    and m: "map_set q = map_set p \<or>
            (\<exists>e. map_set q = e # map_set p \<and>
                 \<not> (hash e = hash k \<and> view_bytes env (pages q) (view e) = Some (caller_bytes env a n)))"
  shows "interned env q k bs h"
proof -
  from i obtain it where it: "find_key env p k = Some it"
    "h = \<lparr>data = sv_data (view it), size_fs = length bs\<rparr>"
    "view_bytes env (pages p) (view it) = Some bs"
    unfolding interned_def by blast
  from find_key_Some [OF v it(1)] have mem: "it \<in> set (map_set p)" by simp
  with inv have "entry_ok (pages p) it" by (simp add: pool_inv_def list_all_iff)
  from entry_bytes_stable [OF this ext] it(3)
  have b: "view_bytes env (pages q) (view it) = Some bs" by simp
  from m have "find_key env q k = Some it"
  proof
    assume "map_set q = map_set p"
    from find_key_same_entries [OF inv ext this v, of env] it(1) show ?thesis by simp
  next
    assume "\<exists>e. map_set q = e # map_set p \<and>
                 \<not> (hash e = hash k \<and> view_bytes env (pages q) (view e) = Some (caller_bytes env a n))"
    then obtain e where e: "map_set q = e # map_set p"
      "\<not> (hash e = hash k \<and> view_bytes env (pages q) (view e) = Some (caller_bytes env a n))"
      by blast
    from find_key_new_entry [OF inv ext e(1) v, of env] e(2) it(1) show ?thesis by simp
  qed
  with it(2) b show ?thesis unfolding interned_def by blast
qed

lemma find_key_same:
  assumes "view k = \<lparr>sv_data = caller_ptr a, sv_size = n\<rparr>"
    and "view k' = \<lparr>sv_data = caller_ptr a', sv_size = n'\<rparr>"
    and "hash k = hash k'" and "caller_bytes env a n = caller_bytes env a' n'"
  shows "find_key env p k = find_key env p k'"
  unfolding find_key_caller [OF assms(1)] find_key_caller [OF assms(2)] assms(3,4) ..

lemma serve_keeps_interned:
  assumes inv: "pool_inv p" and fit: "fits r"
    and v: "view k = \<lparr>sv_data = caller_ptr a, sv_size = n\<rparr>"
    and hk: "hash k = detail_hash (caller_bytes env a n)"
    and i: "interned env p k (caller_bytes env a n) h"
    and s: "serve env p r = Some (h', q)"
  shows "interned env q k (caller_bytes env a n) h \<and>
         (content env r = caller_bytes env a n \<longrightarrow> h' = h)"
proof -
  from req_key_view [of env r] obtain a' n' where
    rk: "view (req_key env r) = \<lparr>sv_data = caller_ptr a', sv_size = n'\<rparr>"
        "content env r = caller_bytes env a' n'"
        "hash (req_key env r) = detail_hash (caller_bytes env a' n')" by blast
  from serve_spec [OF inv fit, of env] s have
    q: "pool_inv q" "extends p q" "interned env q (req_key env r) (content env r) h'"
       "map_set q = map_set p \<or>
            (find_key env p (req_key env r) = None \<and>
             (\<exists>e. map_set q = e # map_set p \<and> hash e = hash (req_key env r) \<and>
               view_bytes env (pages q) (view e) = Some (content env r)))"
    by auto
  from i obtain it where it: "find_key env p k = Some it" unfolding interned_def by blast
  have m: "map_set q = map_set p \<or>
            (\<exists>e. map_set q = e # map_set p \<and>
                 \<not> (hash e = hash k \<and> view_bytes env (pages q) (view e) = Some (caller_bytes env a n)))"
    using q(4)
  proof
    assume "map_set q = map_set p"
    then show ?thesis by simp
  next
    assume "find_key env p (req_key env r) = None \<and>
             (\<exists>e. map_set q = e # map_set p \<and> hash e = hash (req_key env r) \<and>
               view_bytes env (pages q) (view e) = Some (content env r))"
    then obtain e where e: "find_key env p (req_key env r) = None" "map_set q = e # map_set p"
      "hash e = hash (req_key env r)" "view_bytes env (pages q) (view e) = Some (content env r)"
      by blast
    have "\<not> (hash e = hash k \<and> view_bytes env (pages q) (view e) = Some (caller_bytes env a n))"
    proof
      assume "hash e = hash k \<and> view_bytes env (pages q) (view e) = Some (caller_bytes env a n)"
      with e(3,4) rk(2) have "hash (req_key env r) = hash k"
        "caller_bytes env a' n' = caller_bytes env a n" by simp_all
      from find_key_same [OF rk(1) v this, of p] e(1) it show False by simp
    qed
    with e(2) show ?thesis by blast
  qed
  have one: "interned env q k (caller_bytes env a n) h"
    using inv q(2) v i m by (rule interned_stable)
  have two: "h' = h" if c: "content env r = caller_bytes env a n"
  proof -
    from c rk(2,3) hk have "hash (req_key env r) = hash k"
      "caller_bytes env a' n' = caller_bytes env a n" by simp_all
    from find_key_same [OF rk(1) v this, of q] have "find_key env q (req_key env r) = find_key env q k" .
    with q(3) one c show ?thesis unfolding interned_def by auto
  qed
  from one two show ?thesis by blast
qed

lemma run_keeps_interned:
  assumes "pool_inv p" and "list_all fits rs"
    and "view k = \<lparr>sv_data = caller_ptr a, sv_size = n\<rparr>"
    and "hash k = detail_hash (caller_bytes env a n)"
    and "interned env p k (caller_bytes env a n) h"
    and "run env p rs = Some (hs, q)"
  shows "interned env q k (caller_bytes env a n) h \<and>
         (\<forall>j < length rs. content env (rs ! j) = caller_bytes env a n \<longrightarrow> hs ! j = h)"
  using assms
proof (induction rs arbitrary: p hs)
  case Nil
  then show ?case by simp
next
  case (Cons r rs)
  from Cons.prems(2) have f: "fits r" "list_all fits rs" by simp_all
  from Cons.prems(6) obtain h' p1 hs' where
    s: "serve env p r = Some (h', p1)" "run env p1 rs = Some (hs', q)" "hs = h' # hs'"
    by (auto split: option.splits)
  from serve_spec [OF Cons.prems(1) f(1), of env] s(1) have p1: "pool_inv p1" by auto
  from serve_keeps_interned [OF Cons.prems(1) f(1) Cons.prems(3,4,5) s(1)]
  have k: "interned env p1 k (caller_bytes env a n) h"
    "content env r = caller_bytes env a n \<longrightarrow> h' = h" by simp_all
  from Cons.IH [OF p1 f(2) Cons.prems(3,4) k(1) s(2)]
  have ih: "interned env q k (caller_bytes env a n) h"
    "\<forall>j < length rs. content env (rs ! j) = caller_bytes env a n \<longrightarrow> hs' ! j = h" by simp_all
  have "content env ((r # rs) ! j) = caller_bytes env a n \<longrightarrow> hs ! j = h"
    if "j < length (r # rs)" for j
    using that k(2) ih(2) s(3) by (cases j) simp_all
  with ih(1) show ?case by blast
qed

lemma pool_inv_empty: "pool_inv empty_pool"
  by (simp add: pool_inv_def empty_pool_def)

lemma interned_view:
  assumes "interned env q k bs h"
  shows "view_bytes env (pages q) (fs_view h) = Some bs"
proof -
  from assms obtain it where it0: "find_key env q k = Some it \<and>
      h = \<lparr>data = sv_data (view it), size_fs = length bs\<rparr> \<and>
      view_bytes env (pages q) (view it) = Some bs" unfolding interned_def ..
  then have it: "h = \<lparr>data = sv_data (view it), size_fs = length bs\<rparr>"
    "view_bytes env (pages q) (view it) = Some bs" by simp_all
  from view_bytes_length [OF it(2)] have "fs_view h = view it"
    by (simp add: fs_view_def it(1))
  with it(2) show ?thesis by simp
qed

lemma interned_member:
  assumes "interned env q k bs h" and "view k = \<lparr>sv_data = caller_ptr a, sv_size = n\<rparr>"
  shows "\<exists>it \<in> set (map_set q). fs_view h = view it"
proof -
  from assms(1) obtain it where it: "find_key env q k = Some it"
    "h = \<lparr>data = sv_data (view it), size_fs = length bs\<rparr>"
    "view_bytes env (pages q) (view it) = Some bs" unfolding interned_def by blast
  from view_bytes_length [OF it(3)] have "fs_view h = view it"
    by (simp add: fs_view_def it(2))
  with find_key_Some [OF assms(2) it(1)] show ?thesis by blast
qed

lemma run_same_content:
  assumes "pool_inv p" and "list_all fits rs" and "run env p rs = Some (hs, q)"
    and "i < length rs" and "j < length rs" and "i \<le> j"
    and "content env (rs ! i) = content env (rs ! j)"
  shows "hs ! i = hs ! j"
  using assms
proof (induction rs arbitrary: p hs i j)
  case Nil
  then show ?case by simp
next
  case (Cons r rs)
  from Cons.prems(2) have f: "fits r" "list_all fits rs" by simp_all
  from Cons.prems(3) obtain h p1 hs' where
    s: "serve env p r = Some (h, p1)" "run env p1 rs = Some (hs', q)" "hs = h # hs'"
    by (auto split: option.splits)
  from serve_spec [OF Cons.prems(1) f(1), of env] s(1) have
    p1: "pool_inv p1" "interned env p1 (req_key env r) (content env r) h" by auto
  show ?case
  proof (cases i)
    case 0
    show ?thesis
    proof (cases j)
      case 0
      with \<open>i = 0\<close> show ?thesis by simp
    next
      case (Suc j')
      from req_key_view [of env r] obtain a n where
        rk: "view (req_key env r) = \<lparr>sv_data = caller_ptr a, sv_size = n\<rparr>"
            "content env r = caller_bytes env a n"
            "hash (req_key env r) = detail_hash (caller_bytes env a n)" by blast
      from run_keeps_interned [OF p1(1) f(2) rk(1) rk(3) p1(2) [unfolded rk(2)] s(2)]
      have "\<forall>j < length rs. content env (rs ! j) = caller_bytes env a n \<longrightarrow> hs' ! j = h" by simp
      with Cons.prems(5,7) Suc \<open>i = 0\<close> rk(2) s(3) show ?thesis by simp
    qed
  next
    case (Suc i')
    with Cons.prems(6) obtain j' where j: "j = Suc j'" by (cases j) simp_all
    from Cons.IH [OF p1(1) f(2) s(2), of i' j'] Cons.prems(4,5,6,7) Suc j s(3)
    show ?thesis by simp
  qed
qed

lemma run_handles_keep_content:
  assumes "pool_inv p" and "list_all fits rs" and "run env p rs = Some (hs, q)"
  shows "\<forall>i < length rs. view_bytes env (pages q) (fs_view (hs ! i)) = Some (content env (rs ! i))"
  using assms
proof (induction rs arbitrary: p hs)
  case Nil
  then show ?case by simp
next
  case (Cons r rs)
  from Cons.prems(2) have f: "fits r" "list_all fits rs" by simp_all
  from Cons.prems(3) obtain h p1 hs' where
    s: "serve env p r = Some (h, p1)" "run env p1 rs = Some (hs', q)" "hs = h # hs'"
    by (auto split: option.splits)
  from serve_spec [OF Cons.prems(1) f(1), of env] s(1) have
    p1: "pool_inv p1" "interned env p1 (req_key env r) (content env r) h" by auto
  from req_key_view [of env r] obtain a n where
    rk: "view (req_key env r) = \<lparr>sv_data = caller_ptr a, sv_size = n\<rparr>"
        "content env r = caller_bytes env a n"
        "hash (req_key env r) = detail_hash (caller_bytes env a n)" by blast
  from run_keeps_interned [OF p1(1) f(2) rk(1) rk(3) p1(2) [unfolded rk(2)] s(2)]
  have "interned env q (req_key env r) (content env r) h" by (simp add: rk(2))
  then have hd: "view_bytes env (pages q) (fs_view h) = Some (content env r)"
    by (rule interned_view)
  from Cons.IH [OF p1(1) f(2) s(2)]
  have tl: "\<forall>i < length rs. view_bytes env (pages q) (fs_view (hs' ! i)) = Some (content env (rs ! i))" .
  have "view_bytes env (pages q) (fs_view (hs ! i)) = Some (content env ((r # rs) ! i))"
    if "i < length (r # rs)" for i
    using that hd tl s(3) by (cases i) simp_all
  then show ?case by blast
qed

lemma insert_key_pages: "pages (insert_key env p k) = pages p"
  by (simp add: insert_key_def)

lemma foldl_insert_key_pages: "pages (foldl (insert_key env) p ks) = pages p"
  by (induction ks arbitrary: p) (simp_all add: insert_key_pages)

lemma string_pool_of_pages: "pages (string_pool_of env lits) = []"
  by (simp add: string_pool_of_def foldl_insert_key_pages empty_pool_def)

lemma insert_key_literal:
  "get_string_literal env p lit = Some (h, q) \<Longrightarrow> insert_key env p (key lit) = q"
  by (auto simp: get_string_literal_def insert_key_def Let_def split: option.splits)

lemma foldl_insert_key_inv:
  "pool_inv p \<Longrightarrow> pool_inv (foldl (insert_key env) p (map (\<lambda>(a, n). key (literal_key env a n)) xs))"
proof (induction xs arbitrary: p)
  case Nil
  then show ?case by simp
next
  case (Cons x xs)
  obtain a n where x: "x = (a, n)" by (cases x)
  from literal_path_spec [OF Cons.prems, of env a n] obtain h q where
    q: "get_string_literal env p (literal_key env a n) = Some (h, q)" "pool_inv q" by blast
  from insert_key_literal [OF q(1)] Cons.IH [OF q(2)] show ?case by (simp add: x)
qed

lemma string_pool_of_inv:
  "pool_inv (string_pool_of env (map (\<lambda>(a, n). literal_key env a n) xs))"
  using foldl_insert_key_inv [OF pool_inv_empty, of env xs]
  by (simp add: string_pool_of_def comp_def case_prod_unfold)

lemma example_fits:
  "list_all fits [by_key 65 3, by_literal 65 3, by_view 66 2, by_string 65 3]"
  by (simp add: page_size_def)

lemma example_handles:
  "map_option fst
     (run example_env empty_pool [by_key 65 3, by_literal 65 3, by_view 66 2, by_string 65 3])
   = Some [\<lparr>data = page_ptr 0 0, size_fs = 3\<rparr>, \<lparr>data = page_ptr 0 0, size_fs = 3\<rparr>,
           \<lparr>data = page_ptr 0 4, size_fs = 2\<rparr>, \<lparr>data = page_ptr 0 0, size_fs = 3\<rparr>]"
  by code_simp

lemma example_content: "caller_bytes example_env 65 3 = [65, 66, 67]"
  by (simp add: caller_bytes_def example_env_def upt_rec)

lemma reachable_pool_inv:
  assumes "list_all fits rs"
    and "run env (string_pool_of env (map (\<lambda>(a, n). literal_key env a n) xs)) rs = Some (hs, q)"
  shows "pool_inv q"
  using run_spec [OF string_pool_of_inv [of env xs] assms(1), of env] assms(2) by auto

subsection \<open>Deduplication\<close>

text \<open>
  Claim C6. Take a pool (any pool in the state \<open>pool_inv\<close>, which both constructors
  establish and every call keeps: \<open>pool_inv_empty\<close>, \<open>string_pool_of_inv\<close>, \<open>run_spec\<close>,
  \<open>reachable_pool_inv\<close>) and any sequence of \<open>get_string\<close> calls through the four
  overloads in which every copied string fits in a page. All calls return, and any two of them that pass the same bytes,
  whatever their overloads, their order and the calls between them, return handles with
  the same data address and the same length.
\<close>

theorem same_content_same_handle:
  assumes "pool_inv p" and "list_all fits rs"
  shows "\<exists>hs q. run env p rs = Some (hs, q) \<and> length hs = length rs \<and>
           (\<forall>i < length rs. \<forall>j < length rs.
              content env (rs ! i) = content env (rs ! j) \<longrightarrow>
              data (hs ! i) = data (hs ! j) \<and> size_fs (hs ! i) = size_fs (hs ! j))"
proof -
  from run_spec [OF assms, of env] obtain hs q where
    r: "run env p rs = Some (hs, q)" "length hs = length rs" by blast
  have "data (hs ! i) = data (hs ! j) \<and> size_fs (hs ! i) = size_fs (hs ! j)"
    if "i < length rs" "j < length rs" "content env (rs ! i) = content env (rs ! j)" for i j
  proof (cases "i \<le> j")
    case True
    from run_same_content [OF assms r(1) that(1,2) True that(3)] show ?thesis by simp
  next
    case False
    then have "j \<le> i" by simp
    from run_same_content [OF assms r(1) that(2,1) this that(3) [symmetric]]
    show ?thesis by simp
  qed
  with r show ?thesis by blast
qed

theorem same_content_same_handle_witness:
  "pool_inv empty_pool \<and>
   list_all fits [by_key 65 3, by_literal 65 3, by_view 66 2, by_string 65 3] \<and>
   content example_env (by_key 65 3) = content example_env (by_literal 65 3) \<and>
   content example_env (by_literal 65 3) = content example_env (by_string 65 3) \<and>
   (\<exists>hs q. run example_env empty_pool [by_key 65 3, by_literal 65 3, by_view 66 2, by_string 65 3]
              = Some (hs, q) \<and>
            hs = [\<lparr>data = page_ptr 0 0, size_fs = 3\<rparr>, \<lparr>data = page_ptr 0 0, size_fs = 3\<rparr>,
                  \<lparr>data = page_ptr 0 4, size_fs = 2\<rparr>, \<lparr>data = page_ptr 0 0, size_fs = 3\<rparr>] \<and>
            data (hs ! 0) = data (hs ! 1) \<and> size_fs (hs ! 0) = size_fs (hs ! 1) \<and>
            data (hs ! 1) = data (hs ! 3) \<and> size_fs (hs ! 1) = size_fs (hs ! 3))"
proof -
  let ?rs = "[by_key 65 3, by_literal 65 3, by_view 66 2, by_string 65 3]"
  from same_content_same_handle [OF pool_inv_empty example_fits, of example_env]
  obtain hs q where r: "run example_env empty_pool ?rs = Some (hs, q)"
    and e: "\<forall>i < length ?rs. \<forall>j < length ?rs.
              content example_env (?rs ! i) = content example_env (?rs ! j) \<longrightarrow>
              data (hs ! i) = data (hs ! j) \<and> size_fs (hs ! i) = size_fs (hs ! j)"
    by blast
  from e [rule_format, of 0 1] e [rule_format, of 1 3]
  have "data (hs ! 0) = data (hs ! 1) \<and> size_fs (hs ! 0) = size_fs (hs ! 1)"
       "data (hs ! 1) = data (hs ! 3) \<and> size_fs (hs ! 1) = size_fs (hs ! 3)"
    by simp_all
  moreover from example_handles r
  have "hs = [\<lparr>data = page_ptr 0 0, size_fs = 3\<rparr>, \<lparr>data = page_ptr 0 0, size_fs = 3\<rparr>,
              \<lparr>data = page_ptr 0 4, size_fs = 2\<rparr>, \<lparr>data = page_ptr 0 0, size_fs = 3\<rparr>]"
    by simp
  ultimately show ?thesis using r pool_inv_empty example_fits by simp
qed

subsection \<open>Stability of issued handles\<close>

text \<open>
  Claim C7. Take a pool and any sequence of \<open>get_string\<close> calls in which every copied
  string fits in a page. After the sequence no page has gone, every byte of a page
  that had been handed out before the sequence is unchanged (also when the sequence
  allocated new pages), every entry of the index is still there and reads the bytes it
  read before, and every handle issued in the sequence reads the bytes that were passed
  when it was issued. The sequence is any sequence, so this holds after every later call.
\<close>

theorem issued_bytes_never_change:
  assumes "pool_inv p" and "list_all fits rs"
  shows "\<exists>hs q. run env p rs = Some (hs, q) \<and> length hs = length rs \<and>
           length (pages p) \<le> length (pages q) \<and>
           (\<forall>j < length (pages p). \<forall>off < page_size - remaining (pages p ! j).
              buffer (pages q ! j) off = buffer (pages p ! j) off) \<and>
           (\<forall>e \<in> set (map_set p). e \<in> set (map_set q) \<and>
              view_bytes env (pages q) (view e) = view_bytes env (pages p) (view e)) \<and>
           (\<forall>i < length rs.
              view_bytes env (pages q) (fs_view (hs ! i)) = Some (content env (rs ! i)))"
proof -
  from run_spec [OF assms, of env] obtain hs q where
    r: "run env p rs = Some (hs, q)" "length hs = length rs" "extends p q" by blast
  have a: "length (pages p) \<le> length (pages q)" using r(3) by (simp add: extends_def)
  have b: "\<forall>j < length (pages p). \<forall>off < page_size - remaining (pages p ! j).
              buffer (pages q ! j) off = buffer (pages p ! j) off"
    using r(3) by (simp add: extends_def)
  have c: "e \<in> set (map_set q) \<and>
              view_bytes env (pages q) (view e) = view_bytes env (pages p) (view e)"
    if e: "e \<in> set (map_set p)" for e
  proof -
    from assms(1) e have "entry_ok (pages p) e" by (simp add: pool_inv_def list_all_iff)
    from entry_bytes_stable [OF this r(3)] e r(3) show ?thesis by (auto simp: extends_def)
  qed
  note d = run_handles_keep_content [OF assms r(1)]
  from r(1,2) a b c d show ?thesis by blast
qed

theorem issued_bytes_never_change_witness:
  "pool_inv empty_pool \<and>
   list_all fits [by_key 65 3, by_literal 65 3, by_view 66 2, by_string 65 3] \<and>
   (\<exists>hs q. run example_env empty_pool [by_key 65 3, by_literal 65 3, by_view 66 2, by_string 65 3]
              = Some (hs, q) \<and>
            view_bytes example_env (pages q) (fs_view (hs ! 0)) = Some [65, 66, 67] \<and>
            view_bytes example_env (pages q) (fs_view (hs ! 2)) = Some [66, 67])"
proof -
  let ?rs = "[by_key 65 3, by_literal 65 3, by_view 66 2, by_string 65 3]"
  from issued_bytes_never_change [OF pool_inv_empty example_fits, of example_env]
  obtain hs q where r: "run example_env empty_pool ?rs = Some (hs, q)"
    and e: "\<forall>i < length ?rs.
              view_bytes example_env (pages q) (fs_view (hs ! i)) = Some (content example_env (?rs ! i))"
    by blast
  have c: "caller_bytes example_env 66 2 = [66, 67]"
    by (simp add: caller_bytes_def example_env_def upt_rec)
  from e [rule_format, of 0] e [rule_format, of 2]
  have "view_bytes example_env (pages q) (fs_view (hs ! 0)) = Some [65, 66, 67]"
       "view_bytes example_env (pages q) (fs_view (hs ! 2)) = Some [66, 67]"
    by (simp_all add: example_content c)
  with r pool_inv_empty example_fits show ?thesis by simp
qed

subsection \<open>Literals are not copied\<close>



subsection \<open>The copy stays inside the page\<close>

text \<open>
  Claim C9. For a call of \<open>get_string(string_key)\<close> with a string of \<open>n\<close> bytes,
  \<open>n + 1 < page_size\<close>: the call returns; the page that \<open>push_back\<close> is called on can hold
  the string (\<open>n + 1\<close> is less than its free bytes) and has at most \<open>page_size\<close> free bytes;
  and \<open>push_back\<close> on that page returns the offset \<open>at\<close> where the free bytes start,
  with \<open>at + n + 1 \<le> page_size\<close>, and changes no byte of the buffer outside the offsets
  \<open>at .. at + n\<close>, all of them below \<open>page_size\<close>.
\<close>

theorem push_back_within_page:
  assumes "pool_inv p" and "view k = \<lparr>sv_data = caller_ptr a, sv_size = n\<rparr>"
    and "n + 1 < page_size"
  shows "(\<exists>h q. get_string_key env p k = Some (h, q)) \<and>
         can_hold (last (ensure_page env (pages p) n)) n \<and>
         remaining (last (ensure_page env (pages p) n)) \<le> page_size \<and>
         (\<exists>at pg. at = page_size - remaining (last (ensure_page env (pages p) n)) \<and>
            push_back (length (ensure_page env (pages p) n) - 1) (caller_bytes env a n)
                (last (ensure_page env (pages p) n))
              = Some (page_ptr (length (ensure_page env (pages p) n) - 1) at, pg) \<and>
            at + n + 1 \<le> page_size \<and>
            (\<forall>i. buffer pg i \<noteq> buffer (last (ensure_page env (pages p) n)) i
                   \<longrightarrow> at \<le> i \<and> i \<le> at + n \<and> i < page_size))"
proof -
  let ?bs = "caller_bytes env a n"
  let ?cur = "last (ensure_page env (pages p) n)"
  let ?at = "page_size - remaining ?cur"
  have l: "length ?bs = n" by (rule length_caller_bytes)
  from assms(3) have fit: "n + 1 \<le> page_size" by simp
  from copy_path_spec [OF assms(1,2) fit, of env]
  have g: "\<exists>h q. get_string_key env p k = Some (h, q)" by blast
  have c: "can_hold ?cur n" using assms(3) by (rule ensure_page_can_hold)
  from assms(1) have r: "remaining ?cur \<le> page_size"
    by (intro ensure_page_remaining) (simp add: pool_inv_def)
  from c have f: "length ?bs + 1 \<le> remaining ?cur" by (simp add: can_hold_def l)
  note pb = push_back_Some [OF r f, unfolded l]
  from r f have b: "?at + n + 1 \<le> page_size" by (simp add: l)
  have w: "?at \<le> i \<and> i \<le> ?at + n \<and> i < page_size"
    if "((write_bytes (buffer ?cur) ?at ?bs)(?at + n := 0)) i \<noteq> buffer ?cur i" for i
  proof (cases "i = ?at + n")
    case True
    with b show ?thesis by simp
  next
    case False
    with that have "write_bytes (buffer ?cur) ?at ?bs i \<noteq> buffer ?cur i" by simp
    from write_bytes_outside [OF this] b show ?thesis by (simp add: l)
  qed
  from g c r pb b w show ?thesis by simp
qed

theorem push_back_within_page_witness:
  "pool_inv empty_pool \<and>
   view (string_key_of example_env 65 3) = \<lparr>sv_data = caller_ptr 65, sv_size = 3\<rparr> \<and>
   (3::nat) + 1 < page_size \<and>
   (\<exists>h q. get_string_key example_env empty_pool (string_key_of example_env 65 3) = Some (h, q)) \<and>
   can_hold (last (ensure_page example_env (pages empty_pool) 3)) 3 \<and>
   (\<exists>pg. push_back 0 [65, 66, 67] (new_page example_env 0) = Some (page_ptr 0 0, pg) \<and>
      (\<forall>i. buffer pg i \<noteq> buffer (new_page example_env 0) i \<longrightarrow> i \<le> 3))"
proof -
  have v: "view (string_key_of example_env 65 3) = \<lparr>sv_data = caller_ptr 65, sv_size = 3\<rparr>"
    by (simp add: string_key_of_def)
  have f: "(3::nat) + 1 < page_size" by (simp add: page_size_def)
  have e: "ensure_page example_env (pages empty_pool) 3 = [new_page example_env 0]"
    by (simp add: ensure_page_def empty_pool_def)
  have n: "page_size - remaining (new_page example_env 0) = 0" by (simp add: new_page_def)
  from push_back_within_page [OF pool_inv_empty v f, of example_env]
  have t: "(\<exists>h q. get_string_key example_env empty_pool (string_key_of example_env 65 3)
               = Some (h, q)) \<and>
      can_hold (new_page example_env 0) 3 \<and>
      (\<exists>pg. push_back 0 [65, 66, 67] (new_page example_env 0) = Some (page_ptr 0 0, pg) \<and>
        (\<forall>i. buffer pg i \<noteq> buffer (new_page example_env 0) i \<longrightarrow> i \<le> 3))"
    unfolding e example_content by (simp add: n) blast
  from t v f pool_inv_empty show ?thesis unfolding e by simp
qed

subsection \<open>The copy is terminated\<close>

text \<open>
  Claim C10, as stated, speaks of every call through the copying path whose content is
  not in the index. A string of \<open>page_size\<close> bytes or more does not fit in a new page:
  for 4096 bytes the terminator would be written at offset 4096 of a buffer of 4096
  bytes, the behaviour is undefined and no handle is returned.
\<close>

theorem oversized_copy_undefined:
  "find_key example_env empty_pool (string_key_of example_env 0 4096) = None \<and>
   get_string_key example_env empty_pool (string_key_of example_env 0 4096) = None \<and>
   get_string_view example_env empty_pool 0 4096 = None \<and>
   get_string_string example_env empty_pool 0 4096 = None"
  by (simp add: get_string_view_def get_string_string_def get_string_key_def find_key_def
      empty_pool_def string_key_of_def ensure_page_def view_bytes_def push_back_def new_page_def
      page_size_def Let_def)

text \<open>
  Claim C10, amended. For every call through the copying path with a string of \<open>n\<close>
  bytes, \<open>n < page_size\<close>, whose content is not in the index: the call returns a handle of
  length \<open>n\<close> whose data address lies in a page of the pool, with the \<open>n\<close> bytes and the
  terminator inside the buffer; the \<open>n\<close> bytes read through the handle are the bytes
  passed, and the byte after them is 0.
\<close>

theorem copy_is_terminated:
  assumes "pool_inv p" and "view k = \<lparr>sv_data = caller_ptr a, sv_size = n\<rparr>"
    and "find_key env p k = None" and "n + 1 \<le> page_size"
  shows "\<exists>h q j off. get_string_key env p k = Some (h, q) \<and>
           data h = page_ptr j off \<and> size_fs h = n \<and>
           j < length (pages q) \<and> off + n + 1 \<le> page_size \<and>
           view_bytes env (pages q) (fs_view h) = Some (caller_bytes env a n) \<and>
           terminator env q h = 0"
proof -
  let ?bs = "caller_bytes env a n"
  let ?q = "copied env p k ?bs"
  let ?no = "length (ensure_page env (pages p) n) - 1"
  let ?at = "page_size - remaining (last (ensure_page env (pages p) n))"
  let ?h = "\<lparr>data = page_ptr ?no ?at, size_fs = n\<rparr>"
  have bs: "length ?bs = n" by (rule length_caller_bytes)
  note sp = copied_spec [of p k a n ?bs env, OF assms(1,2,4) bs]
  have g: "get_string_key env p k = Some (?h, ?q)"
    using assms by (rule get_string_key_miss)
  from sp(2) have b: "?at + n + 1 \<le> page_size" by simp
  have t: "terminator env ?q ?h = 0" using sp(4) by (simp add: terminator_def)
  have v: "view_bytes env (pages ?q) (fs_view ?h) = Some ?bs" using sp(3) by (simp add: fs_view_def)
  from g sp(1) b v t show ?thesis by (intro exI [of _ ?h] exI [of _ ?q] exI [of _ ?no] exI [of _ ?at]) simp
qed

theorem copy_is_terminated_witness:
  "pool_inv empty_pool \<and>
   view (string_key_of example_env 65 3) = \<lparr>sv_data = caller_ptr 65, sv_size = 3\<rparr> \<and>
   find_key example_env empty_pool (string_key_of example_env 65 3) = None \<and>
   (3::nat) + 1 \<le> page_size \<and>
   (\<exists>h q. get_string_view example_env empty_pool 65 3 = Some (h, q) \<and>
      h = \<lparr>data = page_ptr 0 0, size_fs = 3\<rparr> \<and>
      view_bytes example_env (pages q) (fs_view h) = Some [65, 66, 67] \<and>
      terminator example_env q h = 0)"
proof -
  have v: "view (string_key_of example_env 65 3) = \<lparr>sv_data = caller_ptr 65, sv_size = 3\<rparr>"
    by (simp add: string_key_of_def)
  have f: "(3::nat) + 1 \<le> page_size" by (simp add: page_size_def)
  have m: "find_key example_env empty_pool (string_key_of example_env 65 3) = None"
    by (simp add: find_key_def empty_pool_def)
  from copy_is_terminated [OF pool_inv_empty v m f] obtain h q where
    g: "get_string_key example_env empty_pool (string_key_of example_env 65 3) = Some (h, q)"
       "view_bytes example_env (pages q) (fs_view h) = Some (caller_bytes example_env 65 3)"
       "terminator example_env q h = 0"
    by blast
  have "map_option fst (get_string_key example_env empty_pool (string_key_of example_env 65 3))
      = Some \<lparr>data = page_ptr 0 0, size_fs = 3\<rparr>"
    by code_simp
  with g(1) have h: "h = \<lparr>data = page_ptr 0 0, size_fs = 3\<rparr>" by simp
  from g h v f m pool_inv_empty show ?thesis
    by (simp add: get_string_view_def example_content)
qed

end
